theory Spec2Isabelle
  imports Complex_Main "HOL-Library.Sublist" "HOL-Library.Log_Nat"
begin

section \<open>JavaScript strings\<close>

text \<open>
  A JavaScript string is a sequence of UTF-16 code units, and \<open>length\<close>, \<open>split\<close>,
  \<open>trim\<close> and the regular expressions of the source all work on code units. The
  en dash of the time-range pattern is the single code unit 8211 (U+2013), which is
  not a \<open>char\<close> of HOL, so a string is a list of code units here (the numbers
  \<open>charCodeAt\<close> returns) and ASCII literals are written \<open>ascii ''...''\<close>.
\<close>

type_synonym jstring = "int list"

definition ascii :: "string \<Rightarrow> jstring" where
  "ascii s = map of_char s"

definition enDash :: int where
  "enDash = 8211"

text \<open>
  The characters removed by \<open>String.prototype.trim\<close> and matched by \<open>\s\<close>:
  WhiteSpace and LineTerminator of ECMA-262.
\<close>

definition isWhiteSpace :: "int \<Rightarrow> bool" where
  "isWhiteSpace c \<longleftrightarrow>
     c = 9 \<or> c = 10 \<or> c = 11 \<or> c = 12 \<or> c = 13 \<or> c = 32 \<or> c = 160 \<or> c = 5760 \<or>
     (8192 \<le> c \<and> c \<le> 8202) \<or> c = 8232 \<or> c = 8233 \<or> c = 8239 \<or> c = 8287 \<or>
     c = 12288 \<or> c = 65279"

definition isLineTerminator :: "int \<Rightarrow> bool" where
  "isLineTerminator c \<longleftrightarrow> c = 10 \<or> c = 13 \<or> c = 8232 \<or> c = 8233"

definition isDigit :: "int \<Rightarrow> bool" where
  "isDigit c \<longleftrightarrow> 48 \<le> c \<and> c \<le> 57"

definition trim :: "jstring \<Rightarrow> jstring" where
  "trim s = rev (dropWhile isWhiteSpace (rev (dropWhile isWhiteSpace s)))"

text \<open>
  \<open>s.split(sep)\<close> for a non-empty string separator: scan from the left, cut at each
  occurrence of the separator and resume after it; the piece after the last
  occurrence is always emitted, so the result is never empty. Both call sites of
  the source pass a non-empty separator (\<open>':'\<close> and \<open>'---'\<close>).
\<close>

function splitFrom :: "jstring \<Rightarrow> jstring \<Rightarrow> jstring \<Rightarrow> jstring list" where
  "splitFrom sep cur [] = [cur]"
| "splitFrom sep cur (c # cs) =
     (if sep \<noteq> [] \<and> prefix sep (c # cs)
      then cur # splitFrom sep [] (drop (length sep) (c # cs))
      else splitFrom sep (cur @ [c]) cs)"
  by pat_completeness auto
termination
  by (relation "measure (\<lambda>(sep, cur, s). length s)") auto

definition split :: "jstring \<Rightarrow> jstring \<Rightarrow> jstring list" where
  "split sep s = splitFrom sep [] s"

section \<open>JavaScript numbers\<close>

text \<open>
  A Number is an IEEE 754 binary64 value. Finite values are carried as the rational
  they denote; every arithmetic result is rounded to the nearest representable value,
  ties to even, and overflows to an infinity. The two zeros are identified: nothing in
  \<open>handleSeek\<close> tells them apart.
\<close>

datatype jsnum = NaN | PosInf | NegInf | Fin rat

definition pow2 :: "int \<Rightarrow> rat" where
  "pow2 k = (if 0 \<le> k then 2 ^ nat k else 1 / 2 ^ nat (- k))"

definition pow10 :: "int \<Rightarrow> rat" where
  "pow10 k = (if 0 \<le> k then 10 ^ nat k else 1 / 10 ^ nat (- k))"

definition ilog2 :: "rat \<Rightarrow> int" where
  "ilog2 a = (if pow2 (bitlen (fst (quotient_of a)) - bitlen (snd (quotient_of a))) \<le> a
              then bitlen (fst (quotient_of a)) - bitlen (snd (quotient_of a))
              else bitlen (fst (quotient_of a)) - bitlen (snd (quotient_of a)) - 1)"

definition roundHalfEven :: "rat \<Rightarrow> int" where
  "roundHalfEven x =
     (if x - of_int \<lfloor>x\<rfloor> < 1 / 2 then \<lfloor>x\<rfloor>
      else if 1 / 2 < x - of_int \<lfloor>x\<rfloor> then \<lfloor>x\<rfloor> + 1
      else if even \<lfloor>x\<rfloor> then \<lfloor>x\<rfloor> else \<lfloor>x\<rfloor> + 1)"

text \<open>
  \<open>pack neg e n\<close> is the value with significand \<open>n\<close> (at most \<open>2^53\<close>) in the binade
  of exponent \<open>e\<close>: \<open>n * 2^(e - 52)\<close>, which reaches \<open>2^1024\<close> and so overflows exactly
  when \<open>e\<close> is at least 1024, or is 1023 with the significand rounded up to \<open>2^53\<close>.
\<close>

definition pack :: "bool \<Rightarrow> int \<Rightarrow> int \<Rightarrow> jsnum" where
  "pack neg e n =
     (if 1024 \<le> e \<or> (e = 1023 \<and> 2 ^ 53 \<le> n) then (if neg then NegInf else PosInf)
      else Fin ((if neg then - 1 else 1) * of_int n * pow2 (e - 52)))"

definition roundAt :: "rat \<Rightarrow> int \<Rightarrow> jsnum" where
  "roundAt q e = pack (q < 0) e (roundHalfEven (\<bar>q\<bar> / pow2 (e - 52)))"

definition round64 :: "rat \<Rightarrow> jsnum" where
  "round64 q = (if q = 0 then Fin 0 else roundAt q (max (ilog2 \<bar>q\<bar>) (- 1022)))"

fun jmul :: "jsnum \<Rightarrow> jsnum \<Rightarrow> jsnum" where
  "jmul NaN y = NaN"
| "jmul x NaN = NaN"
| "jmul (Fin a) (Fin b) = round64 (a * b)"
| "jmul (Fin a) PosInf = (if a = 0 then NaN else if 0 < a then PosInf else NegInf)"
| "jmul (Fin a) NegInf = (if a = 0 then NaN else if 0 < a then NegInf else PosInf)"
| "jmul PosInf (Fin b) = (if b = 0 then NaN else if 0 < b then PosInf else NegInf)"
| "jmul NegInf (Fin b) = (if b = 0 then NaN else if 0 < b then NegInf else PosInf)"
| "jmul PosInf PosInf = PosInf"
| "jmul PosInf NegInf = NegInf"
| "jmul NegInf PosInf = NegInf"
| "jmul NegInf NegInf = PosInf"

fun jadd :: "jsnum \<Rightarrow> jsnum \<Rightarrow> jsnum" where
  "jadd NaN y = NaN"
| "jadd x NaN = NaN"
| "jadd (Fin a) (Fin b) = round64 (a + b)"
| "jadd (Fin a) PosInf = PosInf"
| "jadd (Fin a) NegInf = NegInf"
| "jadd PosInf (Fin b) = PosInf"
| "jadd NegInf (Fin b) = NegInf"
| "jadd PosInf PosInf = PosInf"
| "jadd PosInf NegInf = NaN"
| "jadd NegInf PosInf = NaN"
| "jadd NegInf NegInf = NegInf"

definition isNaN :: "jsnum \<Rightarrow> bool" where
  "isNaN x \<longleftrightarrow> x = NaN"

text \<open>
  The built-in \<open>parseFloat\<close> (ECMA-262, 19.2.4): skip leading white space, take the
  longest prefix that is a StrDecimalLiteral (an optional sign, then \<open>Infinity\<close> or
  digits with an optional fraction and an optional exponent), and return its value
  rounded to a Number; NaN when no prefix is one. Whatever follows the prefix is
  ignored.
\<close>

definition digitsValue :: "jstring \<Rightarrow> int" where
  "digitsValue ds = foldl (\<lambda>a c. 10 * a + (c - 48)) 0 ds"

definition exponentPart :: "jstring \<Rightarrow> int" where
  "exponentPart s =
     (case s of
        [] \<Rightarrow> 0
      | c # r \<Rightarrow>
          if c = 101 \<or> c = 69 then
            (case r of
               [] \<Rightarrow> 0
             | d # r' \<Rightarrow>
                 if d = 45 then - digitsValue (takeWhile isDigit r')
                 else if d = 43 then digitsValue (takeWhile isDigit r')
                 else digitsValue (takeWhile isDigit r))
          else 0)"

definition fractionDigits :: "jstring \<Rightarrow> jstring" where
  "fractionDigits r = (case r of [] \<Rightarrow> [] | c # r' \<Rightarrow> if c = 46 then takeWhile isDigit r' else [])"

definition afterFraction :: "jstring \<Rightarrow> jstring" where
  "afterFraction r = (case r of [] \<Rightarrow> [] | c # r' \<Rightarrow> if c = 46 then dropWhile isDigit r' else r)"

definition decimalValue :: "jstring \<Rightarrow> jstring \<Rightarrow> rat option" where
  "decimalValue ip r =
     (if ip = [] \<and> fractionDigits r = [] then None
      else Some ((of_int (digitsValue ip)
                   + of_int (digitsValue (fractionDigits r)) / 10 ^ length (fractionDigits r))
                  * pow10 (exponentPart (afterFraction r))))"

definition unsignedDecimal :: "jstring \<Rightarrow> rat option" where
  "unsignedDecimal u = decimalValue (takeWhile isDigit u) (dropWhile isDigit u)"

definition strDecimalLiteral :: "bool \<Rightarrow> jstring \<Rightarrow> jsnum" where
  "strDecimalLiteral neg u =
     (if prefix (ascii ''Infinity'') u then (if neg then NegInf else PosInf)
      else (case unsignedDecimal u of
              None \<Rightarrow> NaN
            | Some m \<Rightarrow> round64 (if neg then - m else m)))"

fun signedLiteral :: "jstring \<Rightarrow> jsnum" where
  "signedLiteral [] = NaN"
| "signedLiteral (c # r) =
     (if c = 45 then strDecimalLiteral True r
      else if c = 43 then strDecimalLiteral False r
      else strDecimalLiteral False (c # r))"

definition parseFloat :: "jstring \<Rightarrow> jsnum" where
  "parseFloat s = signedLiteral (dropWhile isWhiteSpace s)"

section \<open>Seeking: handleSeek\<close>

text \<open>
  The video element is seen through the commands \<open>handleSeek\<close> issues to it: the
  assignment to \<open>currentTime\<close> and the call of \<open>play()\<close>, whose rejection the source
  swallows. \<open>currentTime\<close> is a WebIDL \<open>double\<close>: assigning an infinity throws a
  TypeError before the element is touched.
\<close>

datatype media_cmd = SetCurrentTime rat | Play

datatype exn = TypeError

record video =
  commands :: "media_cmd list"

text \<open>
  Lines 168--172 of the source: the conversion of the timestamp text. \<open>map(parseFloat)\<close>
  hands each part to \<open>parseFloat\<close> with its index and the array, which \<open>parseFloat\<close>
  ignores.
\<close>

definition seekSeconds :: "jstring \<Rightarrow> jsnum" where
  "seekSeconds time =
     (let parts = map parseFloat (split (ascii '':'') time)
      in if length parts = 3
         then jadd (jadd (jmul (parts ! 0) (Fin 3600)) (jmul (parts ! 1) (Fin 60))) (parts ! 2)
         else if length parts = 2 then jadd (jmul (parts ! 0) (Fin 60)) (parts ! 1)
         else if length parts = 1 then parts ! 0
         else Fin 0)"

definition handleSeek :: "jstring \<Rightarrow> video option \<Rightarrow> exn + video option" where
  "handleSeek time videoRef =
     (case videoRef of
        None \<Rightarrow> Inr videoRef
      | Some v \<Rightarrow>
          (let seconds = seekSeconds time
           in if \<not> isNaN seconds then
                (case seconds of
                   Fin q \<Rightarrow> Inr (Some (v\<lparr>commands := commands v @ [SetCurrentTime q, Play]\<rparr>))
                 | _ \<Rightarrow> Inl TypeError)
              else Inr videoRef))"

section \<open>Regular expressions\<close>

text \<open>
  The fragment of JavaScript regular expressions the source uses: literal characters,
  \<open>.\<close>, \<open>\s\<close>, bracket classes of characters and \<open>\d\<close>, the greedy quantifiers
  \<open>*\<close> and \<open>+\<close> on a single atom, capture groups around a quantified atom, and the
  flag \<open>i\<close>. Matching is the backtracking search of ECMA-262: a greedy quantifier
  takes as many characters as it can and gives them back one at a time while the rest
  of the pattern fails.
\<close>

datatype cls_item = CChar int | CDigit

datatype atom = Ch int | Dot | Space | Cls "cls_item list"

datatype quant = One atom | Star atom | Plus atom

datatype re = Plain quant | Group quant

text \<open>
  Canonicalize under the flag \<open>i\<close> (without \<open>u\<close>): upper case, except that a
  character outside ASCII never becomes an ASCII one. Against the ASCII characters of
  the source's patterns this is plain ASCII case folding.
\<close>

definition canon :: "int \<Rightarrow> int" where
  "canon c = (if 97 \<le> c \<and> c \<le> 122 then c - 32 else c)"

fun itemMatch :: "bool \<Rightarrow> cls_item \<Rightarrow> int \<Rightarrow> bool" where
  "itemMatch ic (CChar x) c = (if ic then canon c = canon x else c = x)"
| "itemMatch ic CDigit c = isDigit c"

fun amatch :: "bool \<Rightarrow> atom \<Rightarrow> int \<Rightarrow> bool" where
  "amatch ic (Ch x) c = (if ic then canon c = canon x else c = x)"
| "amatch ic Dot c = (\<not> isLineTerminator c)"
| "amatch ic Space c = isWhiteSpace c"
| "amatch ic (Cls items) c = list_ex (\<lambda>i. itemMatch ic i c) items"

text \<open>
  \<open>rep p k acc s\<close>: the greedy repetition of a one-character test \<open>p\<close>, followed by
  the rest of the pattern \<open>k\<close>; \<open>acc\<close> is what the repetition has consumed so far. The
  result pairs the text the repetition matched with the result of the rest.
\<close>

fun rep :: "(int \<Rightarrow> bool) \<Rightarrow> (jstring \<Rightarrow> 'r option) \<Rightarrow> jstring \<Rightarrow> jstring
            \<Rightarrow> (jstring \<times> 'r) option" where
  "rep p k acc [] = map_option (Pair acc) (k [])"
| "rep p k acc (c # cs) =
     (if p c then
        (case rep p k (acc @ [c]) cs of
           Some r \<Rightarrow> Some r
         | None \<Rightarrow> map_option (Pair acc) (k (c # cs)))
      else map_option (Pair acc) (k (c # cs)))"

fun mq :: "bool \<Rightarrow> quant \<Rightarrow> (jstring \<Rightarrow> 'r option) \<Rightarrow> jstring \<Rightarrow> (jstring \<times> 'r) option" where
  "mq ic (One a) k [] = None"
| "mq ic (One a) k (c # cs) = (if amatch ic a c then map_option (Pair [c]) (k cs) else None)"
| "mq ic (Star a) k s = rep (amatch ic a) k [] s"
| "mq ic (Plus a) k [] = None"
| "mq ic (Plus a) k (c # cs) = (if amatch ic a c then rep (amatch ic a) k [c] cs else None)"

text \<open>
  \<open>matchAt ic pat s\<close>: the pattern matched at the start of \<open>s\<close>; the result is the
  list of the texts of its capture groups, in order (\<open>m[1]\<close>, \<open>m[2]\<close>, ... of the
  match array).
\<close>

primrec matchAt :: "bool \<Rightarrow> re list \<Rightarrow> jstring \<Rightarrow> jstring list option" where
  "matchAt ic [] = (\<lambda>s. Some [])"
| "matchAt ic (r # rs) =
     (\<lambda>s. case r of
            Plain q \<Rightarrow> map_option snd (mq ic q (matchAt ic rs) s)
          | Group q \<Rightarrow> map_option (\<lambda>(u, caps). u # caps) (mq ic q (matchAt ic rs) s))"

text \<open>The leftmost position at which \<open>f\<close> succeeds, the end of the string included.\<close>

fun search :: "(jstring \<Rightarrow> 'r option) \<Rightarrow> jstring \<Rightarrow> 'r option" where
  "search f [] = f []"
| "search f (c # cs) = (case f (c # cs) of Some r \<Rightarrow> Some r | None \<Rightarrow> search f cs)"

text \<open>\<open>s.match(re)\<close> for a regular expression without the flag \<open>g\<close>.\<close>

definition jsMatch :: "bool \<Rightarrow> re list \<Rightarrow> jstring \<Rightarrow> jstring list option" where
  "jsMatch ic pat s = search (matchAt ic pat) s"

section \<open>The transcript decoder: parseScript\<close>

record ScriptLineVersions =
  spoken :: jstring
  tanglish :: jstring
  syncShort :: jstring

record ScriptLine =
  person :: jstring
  startTime :: jstring
  endTime :: jstring
  dialogue :: jstring
  versions :: ScriptLineVersions
  emotion :: "jstring option"
  confidenceScore :: "jsnum option"
  actionDescription :: "jstring option"
  originalMeaning :: "jstring option"

text \<open>The two React state cells \<open>parseScript\<close> writes.\<close>

record app =
  error :: "jstring option"
  script :: "ScriptLine list option"

definition timeClass :: atom where
  "timeClass = Cls [CDigit, CChar 58, CChar 46]"

text \<open>\<open>/\[([\d:.]+) D ([\d:.]+)\]/\<close>, with the dash \<open>D\<close> an en dash or a hyphen.\<close>

definition timeRangeRe :: "int \<Rightarrow> re list" where
  "timeRangeRe dash =
     [Plain (One (Ch 91)), Group (Plus timeClass), Plain (One (Ch 32)), Plain (One (Ch dash)),
      Plain (One (Ch 32)), Group (Plus timeClass), Plain (One (Ch 93))]"

text \<open>\<open>/Label:\s*(.*)/i\<close>; the label is given with its colon.\<close>

definition fieldRe :: "string \<Rightarrow> re list" where
  "fieldRe label = map (\<lambda>c. Plain (One (Ch c))) (ascii label) @ [Plain (Star Space), Group (Star Dot)]"

definition timeMatch :: "jstring \<Rightarrow> jstring list option" where
  "timeMatch block =
     (case jsMatch False (timeRangeRe enDash) block of
        Some m \<Rightarrow> Some m
      | None \<Rightarrow> jsMatch False (timeRangeRe 45) block)"

definition fieldMatch :: "string \<Rightarrow> jstring \<Rightarrow> jstring list option" where
  "fieldMatch label block = jsMatch True (fieldRe label) block"

text \<open>\<open>m ? m[1].trim() : dflt\<close>\<close>

definition trimmedOr :: "jstring list option \<Rightarrow> jstring \<Rightarrow> jstring" where
  "trimmedOr m dflt = (case m of Some g \<Rightarrow> trim (g ! 0) | None \<Rightarrow> dflt)"

definition mkLine :: "jstring list \<Rightarrow> jstring \<Rightarrow> ScriptLine" where
  "mkLine tm block =
     \<lparr> person = trimmedOr (fieldMatch ''Speaker:'' block) (ascii ''Unknown''),
       startTime = trim (tm ! 0),
       endTime = trim (tm ! 1),
       dialogue = trimmedOr (fieldMatch ''S:'' block) [],
       versions = \<lparr> spoken = trimmedOr (fieldMatch ''S:'' block) [],
                    tanglish = trimmedOr (fieldMatch ''T:'' block) [],
                    syncShort = trimmedOr (fieldMatch ''L:'' block) [] \<rparr>,
       emotion = Some (trimmedOr (fieldMatch ''Emotion:'' block) (ascii ''Neutral'')),
       confidenceScore = None,
       actionDescription = Some (trimmedOr (fieldMatch ''Action Description:'' block) []),
       originalMeaning = Some (trimmedOr (fieldMatch ''Original Meaning:'' block) []) \<rparr>"

text \<open>One turn of the loop over the blocks; the two \<open>continue\<close>s leave \<open>lines\<close> as it is.\<close>

definition pushBlock :: "ScriptLine list \<Rightarrow> jstring \<Rightarrow> ScriptLine list" where
  "pushBlock lines block =
     (if trim block = [] then lines
      else (case timeMatch block of
              None \<Rightarrow> lines
            | Some tm \<Rightarrow> lines @ [mkLine tm block]))"

definition parseLines :: "jstring \<Rightarrow> ScriptLine list" where
  "parseLines txt = foldl pushBlock [] (split (ascii ''---'') txt)"

definition parsingError :: jstring where
  "parsingError = ascii ''Parsing Error: AI output didn'' @ [39]
                  @ ascii ''t follow the 20+ timestamp granular format.''"

definition parseScript :: "jstring \<Rightarrow> app \<Rightarrow> app" where
  "parseScript txt st =
     (if length (parseLines txt) = 0 then st\<lparr>error := Some parsingError\<rparr>
      else st\<lparr>script := Some (parseLines txt)\<rparr>)"

section \<open>Notions used in the statements and proofs\<close>

text \<open>The atom a pattern item tests characters with.\<close>

fun quantAtom :: "quant \<Rightarrow> atom" where
  "quantAtom (One a) = a"
| "quantAtom (Star a) = a"
| "quantAtom (Plus a) = a"

fun reAtom :: "re \<Rightarrow> atom" where
  "reAtom (Plain q) = quantAtom q"
| "reAtom (Group q) = quantAtom q"

text \<open>The characters of the class \<open>[\d:.]\<close>.\<close>

definition isTimeChar :: "int \<Rightarrow> bool" where
  "isTimeChar c \<longleftrightarrow> isDigit c \<or> c = 58 \<or> c = 46"

fun expect :: "int \<Rightarrow> jstring \<Rightarrow> jstring option" where
  "expect x [] = None"
| "expect x (c # cs) = (if c = x then Some cs else None)"

text \<open>
  A deterministic reading of the time-range pattern at the start of \<open>s\<close>: a bracket, the
  longest run of time characters, the dash between two spaces, the longest run of time
  characters, a bracket. It is shown equal to the backtracking match below.
\<close>

definition timeAt :: "int \<Rightarrow> jstring \<Rightarrow> jstring list option" where
  "timeAt d s =
     (case expect 91 s of
        None \<Rightarrow> None
      | Some s1 \<Rightarrow>
          if takeWhile isTimeChar s1 = [] then None
          else (case expect 32 (dropWhile isTimeChar s1) of
                  None \<Rightarrow> None
                | Some s2 \<Rightarrow>
                    (case expect d s2 of
                       None \<Rightarrow> None
                     | Some s3 \<Rightarrow>
                         (case expect 32 s3 of
                            None \<Rightarrow> None
                          | Some s4 \<Rightarrow>
                              if takeWhile isTimeChar s4 = [] then None
                              else (case expect 93 (dropWhile isTimeChar s4) of
                                      None \<Rightarrow> None
                                    | Some s5 \<Rightarrow>
                                        Some [takeWhile isTimeChar s1,
                                              takeWhile isTimeChar s4])))))"

text \<open>\<open>ciPrefix w s\<close>: \<open>s\<close> starts with \<open>w\<close>, letter case ignored.\<close>

fun ciPrefix :: "jstring \<Rightarrow> jstring \<Rightarrow> bool" where
  "ciPrefix [] s = True"
| "ciPrefix (x # xs) [] = False"
| "ciPrefix (x # xs) (c # cs) = (canon c = canon x \<and> ciPrefix xs cs)"

text \<open>\<open>ciOccurs w s\<close>: \<open>w\<close> occurs somewhere in \<open>s\<close>, letter case ignored.\<close>

fun ciOccurs :: "jstring \<Rightarrow> jstring \<Rightarrow> bool" where
  "ciOccurs w [] = ciPrefix w []"
| "ciOccurs w (c # cs) = (ciPrefix w (c # cs) \<or> ciOccurs w cs)"

text \<open>
  What \<open>\s*(.*)\<close> captures from the text after a label: leading white space (line
  breaks included) is skipped, then everything up to the next line terminator is taken.
\<close>

definition fieldValue :: "jstring \<Rightarrow> jstring" where
  "fieldValue s = takeWhile (\<lambda>c. \<not> isLineTerminator c) (dropWhile isWhiteSpace s)"

text \<open>The seven labels \<open>parseScript\<close> looks for, each with its colon.\<close>

definition fieldLabels :: "string list" where
  "fieldLabels = [''Speaker:'', ''Original Meaning:'', ''Emotion:'', ''Action Description:'',
                  ''S:'', ''T:'', ''L:'']"

text \<open>
  The reading of the specification for the one-letter labels: the label stands at the
  start of the block or right after a line terminator.
\<close>

fun afterLineBreak :: "jstring \<Rightarrow> jstring \<Rightarrow> bool" where
  "afterLineBreak w [] = False"
| "afterLineBreak w (c # cs) = ((isLineTerminator c \<and> ciPrefix w cs) \<or> afterLineBreak w cs)"

definition lineLeading :: "jstring \<Rightarrow> jstring \<Rightarrow> bool" where
  "lineLeading w s \<longleftrightarrow> ciPrefix w s \<or> afterLineBreak w s"

text \<open>
  A block is terminated by the delimiter when the first occurrence of the delimiter in
  the block followed by the delimiter is the one at the end. \<open>joinBlocks\<close> writes each
  block followed by its delimiter.
\<close>

fun cleanBlock :: "jstring \<Rightarrow> jstring \<Rightarrow> bool" where
  "cleanBlock sep [] = True"
| "cleanBlock sep (c # cs) = (\<not> prefix sep ((c # cs) @ sep) \<and> cleanBlock sep cs)"

definition joinBlocks :: "jstring list \<Rightarrow> jstring" where
  "joinBlocks bs = concat (map (\<lambda>b. b @ ascii ''---'') bs)"

text \<open>The text of a bracketed time range with the dash \<open>d\<close>: \<open>[a d b]\<close>.\<close>

definition timeRange :: "int \<Rightarrow> jstring \<Rightarrow> jstring \<Rightarrow> jstring" where
  "timeRange d a b = 91 # a @ 32 # d # 32 # b @ [93]"

text \<open>
  \<open>lineClosed s\<close>: in the text \<open>s\<close> after a label, once the white space at its start is
  skipped (line breaks included), a line terminator follows later, so the value the
  field pattern captures ends inside \<open>s\<close>. \<open>fieldSettled w s\<close>: the leftmost place of \<open>s\<close>
  where the label \<open>w\<close> stands, if there is one, has its value ended inside \<open>s\<close>.
\<close>

definition lineClosed :: "jstring \<Rightarrow> bool" where
  "lineClosed s \<longleftrightarrow> list_ex isLineTerminator (dropWhile isWhiteSpace s)"

fun fieldSettled :: "jstring \<Rightarrow> jstring \<Rightarrow> bool" where
  "fieldSettled w [] = True"
| "fieldSettled w (c # cs) =
     (if ciPrefix w (c # cs) then lineClosed (drop (length w) (c # cs)) else fieldSettled w cs)"

section \<open>Facts about split\<close>

lemma prefix_append_long:
  "length p \<le> length a \<Longrightarrow> prefix p (a @ b) = prefix p a"
  by (auto simp: prefix_def append_eq_append_conv2) 

lemma splitFrom_single_length:
  "length (splitFrom [c] cur s) = Suc (count_list s c)"
  by (induction s arbitrary: cur) auto

lemma splitFrom_no_delim:
  "\<forall>v. suffix v s \<and> v \<noteq> [] \<longrightarrow> \<not> prefix sep v \<Longrightarrow> splitFrom sep cur s = [cur @ s]"
proof (induction s arbitrary: cur)
  case Nil
  then show ?case by simp
next
  case (Cons x xs)
  have "\<not> prefix sep (x # xs)" using Cons.prems by (simp add: suffix_order.refl)
  moreover have "\<forall>v. suffix v xs \<and> v \<noteq> [] \<longrightarrow> \<not> prefix sep v"
    using Cons.prems by (simp add: suffix_ConsI)
  ultimately show ?case using Cons.IH[of "cur @ [x]"] by simp
qed

lemma splitFrom_single_none:
  "c \<notin> set s \<Longrightarrow> splitFrom [c] cur s = [cur @ s]"
  by (induction s arbitrary: cur) auto

lemma splitFrom_single_cut:
  "c \<notin> set m \<Longrightarrow> splitFrom [c] cur (m @ c # r) = (cur @ m) # splitFrom [c] [] r"
  by (induction m arbitrary: cur) auto

lemma split_colon_one: "58 \<notin> set t \<Longrightarrow> split (ascii '':'') t = [t]"
  by (simp add: split_def ascii_def splitFrom_single_none)

lemma split_colon_two:
  "58 \<notin> set m \<Longrightarrow> 58 \<notin> set s \<Longrightarrow> split (ascii '':'') (m @ 58 # s) = [m, s]"
  by (simp add: split_def ascii_def splitFrom_single_cut splitFrom_single_none)

lemma split_colon_three:
  "58 \<notin> set h \<Longrightarrow> 58 \<notin> set m \<Longrightarrow> 58 \<notin> set s
   \<Longrightarrow> split (ascii '':'') (h @ 58 # m @ 58 # s) = [h, m, s]"
  by (simp add: split_def ascii_def splitFrom_single_cut splitFrom_single_none)

lemma split_colon_length: "length (split (ascii '':'') t) = Suc (count_list t 58)"
  by (simp add: split_def ascii_def splitFrom_single_length)

lemma video_update_neq: "v\<lparr>commands := commands v @ [a, b]\<rparr> \<noteq> v"
  by (cases v) simp

lemma handleSeek_skip_iff:
  "handleSeek t (Some v) = Inr (Some v) \<longleftrightarrow> isNaN (seekSeconds t)"
  by (cases "seekSeconds t") (simp_all add: handleSeek_def isNaN_def video_update_neq)

section \<open>Facts about the matcher\<close>

lemma rep_greedy:
  "k (dropWhile p s) = Some r \<Longrightarrow> rep p k acc s = Some (acc @ takeWhile p s, r)"
  by (induction s arbitrary: acc) auto

lemma rep_fail:
  "(\<And>c cs. p c \<Longrightarrow> k (c # cs) = None) \<Longrightarrow> k (dropWhile p s) = None \<Longrightarrow> rep p k acc s = None"
  by (induction s arbitrary: acc) auto

lemma rep_det:
  assumes "\<And>c cs. p c \<Longrightarrow> k (c # cs) = None"
  shows "rep p k acc s = map_option (Pair (acc @ takeWhile p s)) (k (dropWhile p s))"
proof (cases "k (dropWhile p s)")
  case None
  then show ?thesis using rep_fail[of p k s acc] assms by simp
next
  case (Some r)
  then show ?thesis using rep_greedy[of k p s r acc] by simp
qed

lemma rep_barrier:
  "\<not> p x \<Longrightarrow> (\<And>v. k (v @ x # t) = k v) \<Longrightarrow> rep p k acc (u @ x # t) = rep p k acc u"
proof (induction u arbitrary: acc)
  case Nil
  then show ?case using Nil.prems(2)[of "[]"] by simp
next
  case (Cons c cs)
  have "k (c # cs @ x # t) = k (c # cs)" using Cons.prems(2)[of "c # cs"] by simp
  then show ?case using Cons by (simp cong: option.case_cong)
qed

lemma mq_barrier:
  assumes "\<not> amatch ic (quantAtom q) x" and "\<And>v. k (v @ x # t) = k v"
  shows "mq ic q k (u @ x # t) = mq ic q k u"
proof (cases q)
  case (One a)
  then show ?thesis using assms assms(2)[of "tl u"] by (cases u) auto
next
  case (Star a)
  then show ?thesis using assms rep_barrier[of "amatch ic a" x k t "[]" u] by simp
next
  case (Plus a)
  show ?thesis
  proof (cases u)
    case Nil
    then show ?thesis using Plus assms by simp
  next
    case (Cons c cs)
    then show ?thesis using Plus assms rep_barrier[of "amatch ic a" x k t "[c]" cs] by simp
  qed
qed

lemma matchAt_barrier:
  "\<forall>r\<in>set rs. \<not> amatch ic (reAtom r) x \<Longrightarrow> matchAt ic rs (u @ x # t) = matchAt ic rs u"
proof (induction rs arbitrary: u)
  case Nil
  then show ?case by simp
next
  case (Cons r rs)
  have k: "\<And>v. matchAt ic rs (v @ x # t) = matchAt ic rs v" using Cons by simp
  show ?case
  proof (cases r)
    case (Plain q)
    then show ?thesis using Cons.prems mq_barrier[of ic q x "matchAt ic rs" t u] k by simp
  next
    case (Group q)
    then show ?thesis using Cons.prems mq_barrier[of ic q x "matchAt ic rs" t u] k by simp
  qed
qed

subsection \<open>Leftmost search\<close>

lemma search_None_iff: "search f s = None \<longleftrightarrow> (\<forall>v. suffix v s \<longrightarrow> f v = None)"
proof (induction s)
  case Nil
  then show ?case by simp
next
  case (Cons c cs)
  show ?case using Cons by (auto simp: suffix_Cons split: option.splits)
qed

lemma search_Some_suffix: "search f s = Some r \<Longrightarrow> \<exists>v. suffix v s \<and> f v = Some r"
proof (induction s)
  case Nil
  then show ?case by simp
next
  case (Cons c cs)
  then show ?case by (fastforce simp: suffix_Cons split: option.splits)
qed

lemma search_skip:
  "(\<And>w. suffix w u \<Longrightarrow> w \<noteq> [] \<Longrightarrow> f (w @ v) = None) \<Longrightarrow> search f (u @ v) = search f v"
proof (induction u)
  case Nil
  then show ?case by simp
next
  case (Cons c cs)
  have "f ((c # cs) @ v) = None" using Cons.prems[of "c # cs"] by simp
  moreover have "search f (cs @ v) = search f v"
    using Cons by (simp add: suffix_Cons)
  ultimately show ?case by simp
qed

lemma search_hit: "f s = Some r \<Longrightarrow> search f s = Some r"
  by (cases s) auto

lemma search_local:
  "(\<And>w. w \<noteq> [] \<Longrightarrow> f (w @ v) = f w) \<Longrightarrow> f [] = None
   \<Longrightarrow> search f (u @ v) = (case search f u of Some m \<Rightarrow> Some m | None \<Rightarrow> search f v)"
proof (induction u)
  case Nil
  then show ?case by simp
next
  case (Cons c cs)
  have "f ((c # cs) @ v) = f (c # cs)" using Cons.prems(1)[of "c # cs"] by simp
  then show ?case using Cons by (simp split: option.splits)
qed

subsection \<open>The time-range pattern\<close>

lemma amatch_timeClass: "amatch False timeClass = isTimeChar"
  by (rule ext) (simp add: timeClass_def isTimeChar_def)

lemma matchAt_lit:
  "matchAt False (Plain (One (Ch x)) # rs) s =
     (case expect x s of None \<Rightarrow> None | Some t \<Rightarrow> matchAt False rs t)"
  by (cases s) (simp_all add: option.map_comp comp_def option.map_ident)

lemma matchAt_time_group:
  assumes "\<And>c cs. isTimeChar c \<Longrightarrow> matchAt False rs (c # cs) = None"
  shows "matchAt False (Group (Plus timeClass) # rs) s =
           (if takeWhile isTimeChar s = [] then None
            else map_option ((#) (takeWhile isTimeChar s)) (matchAt False rs (dropWhile isTimeChar s)))"
proof (cases s)
  case Nil
  then show ?thesis by simp
next
  case (Cons c cs)
  show ?thesis
  proof (cases "isTimeChar c")
    case True
    have "rep isTimeChar (matchAt False rs) [c] cs =
            map_option (Pair ([c] @ takeWhile isTimeChar cs)) (matchAt False rs (dropWhile isTimeChar cs))"
      using assms by (rule rep_det)
    then show ?thesis using Cons True
      by (simp add: amatch_timeClass option.map_comp comp_def)
  next
    case False
    then show ?thesis using Cons by (simp add: amatch_timeClass)
  qed
qed

lemma isTimeChar_not_delims [simp]:
  "\<not> isTimeChar 32" "\<not> isTimeChar 91" "\<not> isTimeChar 93" "\<not> isTimeChar 45" "\<not> isTimeChar 8211"
  by (simp_all add: isTimeChar_def isDigit_def)

lemma timeRe_closed: "matchAt False (timeRangeRe d) s = timeAt d s"
proof -
  have k2: "\<And>c cs. isTimeChar c \<Longrightarrow> matchAt False [Plain (One (Ch 93))] (c # cs) = None"
    by (auto simp: matchAt_lit simp del: matchAt.simps)
  have g2: "\<And>t. matchAt False [Group (Plus timeClass), Plain (One (Ch 93))] t =
           (if takeWhile isTimeChar t = [] then None
            else map_option ((#) (takeWhile isTimeChar t))
                   (matchAt False [Plain (One (Ch 93))] (dropWhile isTimeChar t)))"
    using k2 by (rule matchAt_time_group)
  have k1: "\<And>c cs. isTimeChar c \<Longrightarrow>
              matchAt False [Plain (One (Ch 32)), Plain (One (Ch d)), Plain (One (Ch 32)),
                             Group (Plus timeClass), Plain (One (Ch 93))] (c # cs) = None"
    by (auto simp: matchAt_lit simp del: matchAt.simps)
  have g1: "\<And>t. matchAt False [Group (Plus timeClass), Plain (One (Ch 32)), Plain (One (Ch d)),
                 Plain (One (Ch 32)), Group (Plus timeClass), Plain (One (Ch 93))] t =
           (if takeWhile isTimeChar t = [] then None
            else map_option ((#) (takeWhile isTimeChar t))
                   (matchAt False [Plain (One (Ch 32)), Plain (One (Ch d)), Plain (One (Ch 32)),
                                   Group (Plus timeClass), Plain (One (Ch 93))] (dropWhile isTimeChar t)))"
    using k1 by (rule matchAt_time_group)
  show ?thesis
    unfolding timeRangeRe_def timeAt_def
    by (simp only: matchAt_lit g1 g2) (auto split: option.splits)
qed

lemma timeAt_Some:
  assumes "timeAt d s = Some tm"
  shows "\<exists>a b. tm = [a, b] \<and> a \<noteq> [] \<and> b \<noteq> [] \<and> (\<forall>x\<in>set a. isTimeChar x)
               \<and> (\<forall>x\<in>set b. isTimeChar x) \<and> (\<exists>t. s = 91 # t)"
proof -
  obtain c t where s: "s = c # t" using assms by (cases s) (auto simp: timeAt_def)
  have c: "c = 91" using assms s by (auto simp: timeAt_def split: if_splits)
  from assms s c show ?thesis
    by (auto simp: timeAt_def split: option.splits if_splits dest: set_takeWhileD)
qed

lemma timeAt_intro:
  assumes "a \<noteq> []" "b \<noteq> []" "\<forall>x\<in>set a. isTimeChar x" "\<forall>x\<in>set b. isTimeChar x"
  shows "timeAt d (91 # a @ 32 # d # 32 # b @ 93 # t) = Some [a, b]"
proof -
  have ta: "takeWhile isTimeChar (a @ 32 # d # 32 # b @ 93 # t) = a"
    using assms(3) by (simp add: takeWhile_tail)
  have da: "dropWhile isTimeChar (a @ 32 # d # 32 # b @ 93 # t) = 32 # d # 32 # b @ 93 # t"
    using assms(3) by (simp add: dropWhile_append2)
  have tb: "takeWhile isTimeChar (b @ 93 # t) = b"
    using assms(4) by (simp add: takeWhile_tail)
  have db: "dropWhile isTimeChar (b @ 93 # t) = 93 # t"
    using assms(4) by (simp add: dropWhile_append2)
  show ?thesis using assms(1,2) by (simp add: timeAt_def ta da tb db)
qed

lemma timeAt_not_bracket: "c \<noteq> 91 \<Longrightarrow> timeAt d (c # t) = None"
  by (simp add: timeAt_def)

lemma timeAt_Nil: "timeAt d [] = None"
  by (simp add: timeAt_def)

lemma timeAt_local:
  assumes "w \<noteq> []" "d \<noteq> 91"
  shows "timeAt d (w @ 91 # t) = timeAt d w"
proof -
  obtain c cs where w: "w = c # cs" using assms(1) by (cases w) auto
  let ?tail = "[Group (Plus timeClass), Plain (One (Ch 32)), Plain (One (Ch d)),
                 Plain (One (Ch 32)), Group (Plus timeClass), Plain (One (Ch 93))]"
  have "\<forall>r\<in>set ?tail. \<not> amatch False (reAtom r) 91"
    using assms(2) by (simp add: amatch_timeClass)
  then have "matchAt False ?tail (cs @ 91 # t) = matchAt False ?tail cs"
    by (rule matchAt_barrier)
  then have "matchAt False (timeRangeRe d) (w @ 91 # t) = matchAt False (timeRangeRe d) w"
    unfolding timeRangeRe_def w by (simp add: matchAt_lit del: matchAt.simps)
  then show ?thesis by (simp add: timeRe_closed)
qed

subsection \<open>The label patterns\<close>

lemma matchAt_lits:
  "matchAt True (map (\<lambda>c. Plain (One (Ch c))) w @ rs) s =
     (if ciPrefix w s then matchAt True rs (drop (length w) s) else None)"
proof (induction w arbitrary: s)
  case Nil
  then show ?case by simp
next
  case (Cons x xs)
  then show ?case
    by (cases s) (simp_all add: option.map_comp comp_def option.map_ident)
qed

lemma matchAt_value: "matchAt True [Plain (Star Space), Group (Star Dot)] s = Some [fieldValue s]"
proof -
  have dot: "\<And>t. matchAt True [Group (Star Dot)] t = Some [takeWhile (\<lambda>c. \<not> isLineTerminator c) t]"
  proof -
    fix t
    have "rep (amatch True Dot) (matchAt True []) [] t
            = Some ([] @ takeWhile (amatch True Dot) t, [])"
      by (rule rep_greedy) simp
    moreover have "amatch True Dot = (\<lambda>c. \<not> isLineTerminator c)" by (rule ext) simp
    ultimately show "matchAt True [Group (Star Dot)] t = Some [takeWhile (\<lambda>c. \<not> isLineTerminator c) t]"
      by simp
  qed
  have "rep (amatch True Space) (matchAt True [Group (Star Dot)]) [] s
          = Some ([] @ takeWhile (amatch True Space) s,
                  [takeWhile (\<lambda>c. \<not> isLineTerminator c) (dropWhile (amatch True Space) s)])"
    by (rule rep_greedy) (rule dot)
  moreover have "amatch True Space = isWhiteSpace" by (rule ext) simp
  ultimately show ?thesis by (simp add: fieldValue_def)
qed

lemma fieldRe_closed:
  "matchAt True (fieldRe l) s =
     (if ciPrefix (ascii l) s then Some [fieldValue (drop (length l) s)] else None)"
  unfolding fieldRe_def by (simp only: matchAt_lits matchAt_value) (simp add: ascii_def)

lemma fieldMatch_None_iff: "fieldMatch l block = None \<longleftrightarrow> \<not> ciOccurs (ascii l) block"
  unfolding fieldMatch_def jsMatch_def
  by (induction block) (auto simp: fieldRe_closed)

subsection \<open>Trimming\<close>

lemma trim_Nil_iff: "trim s = [] \<longleftrightarrow> (\<forall>c\<in>set s. isWhiteSpace c)"
proof
  assume "trim s = []"
  then have a: "\<forall>c\<in>set (dropWhile isWhiteSpace s). isWhiteSpace c"
    by (simp add: trim_def)
  have "dropWhile isWhiteSpace s = []"
  proof (rule ccontr)
    assume n: "dropWhile isWhiteSpace s \<noteq> []"
    then have "\<not> isWhiteSpace (hd (dropWhile isWhiteSpace s))" by (rule hd_dropWhile)
    moreover have "hd (dropWhile isWhiteSpace s) \<in> set (dropWhile isWhiteSpace s)"
      using n by simp
    ultimately show False using a by blast
  qed
  then show "\<forall>c\<in>set s. isWhiteSpace c" by simp
next
  assume "\<forall>c\<in>set s. isWhiteSpace c"
  then show "trim s = []" by (auto simp: trim_def dest: set_dropWhileD)
qed

lemma dropWhile_none: "\<forall>c\<in>set s. \<not> P c \<Longrightarrow> dropWhile P s = s"
  by (cases s) auto

lemma trim_id: "\<forall>c\<in>set s. \<not> isWhiteSpace c \<Longrightarrow> trim s = s"
  by (simp add: trim_def dropWhile_none)

lemma isTimeChar_not_space: "isTimeChar c \<Longrightarrow> \<not> isWhiteSpace c"
  by (auto simp: isTimeChar_def isDigit_def isWhiteSpace_def)

subsection \<open>What a successful time match looks like\<close>

lemma jsMatch_time_Some:
  assumes "jsMatch False (timeRangeRe d) b = Some tm"
  shows "\<exists>a c. tm = [a, c] \<and> a \<noteq> [] \<and> c \<noteq> [] \<and> (\<forall>x\<in>set a. isTimeChar x)
               \<and> (\<forall>x\<in>set c. isTimeChar x) \<and> 91 \<in> set b"
proof -
  have "search (matchAt False (timeRangeRe d)) b = Some tm"
    using assms by (simp only: jsMatch_def)
  then have "\<exists>v. suffix v b \<and> matchAt False (timeRangeRe d) v = Some tm"
    by (rule search_Some_suffix)
  then obtain v where v1: "suffix v b" and v2: "matchAt False (timeRangeRe d) v = Some tm"
    by (elim exE conjE)
  have "timeAt d v = Some tm" using v2 by (simp only: timeRe_closed)
  then have "\<exists>a c. tm = [a, c] \<and> a \<noteq> [] \<and> c \<noteq> [] \<and> (\<forall>x\<in>set a. isTimeChar x)
               \<and> (\<forall>x\<in>set c. isTimeChar x) \<and> (\<exists>t. v = 91 # t)"
    by (rule timeAt_Some)
  then obtain a c t where ac: "tm = [a, c]" "a \<noteq> []" "c \<noteq> []" "\<forall>x\<in>set a. isTimeChar x"
      "\<forall>x\<in>set c. isTimeChar x" and vt: "v = 91 # t"
    by (elim exE conjE)
  obtain u where "b = u @ v" using v1 unfolding suffix_def by (elim exE)
  then have "91 \<in> set b" using vt by simp
  then show ?thesis using ac by (intro exI[of _ a] exI[of _ c] conjI)
qed

lemma timeMatch_Some:
  assumes "timeMatch b = Some tm"
  shows "\<exists>a c. tm = [a, c] \<and> a \<noteq> [] \<and> c \<noteq> [] \<and> (\<forall>x\<in>set a. isTimeChar x)
               \<and> (\<forall>x\<in>set c. isTimeChar x) \<and> 91 \<in> set b"
proof (cases "jsMatch False (timeRangeRe enDash) b")
  case None
  then have "jsMatch False (timeRangeRe 45) b = Some tm"
    using assms by (simp add: timeMatch_def)
  then show ?thesis by (rule jsMatch_time_Some)
next
  case (Some m)
  then have "jsMatch False (timeRangeRe enDash) b = Some tm"
    using assms by (simp add: timeMatch_def)
  then show ?thesis by (rule jsMatch_time_Some)
qed

lemma timeMatch_not_blank:
  assumes "timeMatch b = Some tm"
  shows "trim b \<noteq> []"
proof -
  have "91 \<in> set b" using timeMatch_Some[OF assms] by blast
  moreover have "\<not> isWhiteSpace 91" by (simp add: isWhiteSpace_def)
  ultimately show ?thesis using trim_Nil_iff[of b] by blast
qed

section \<open>Facts about the loop of parseScript\<close>

lemma splitFrom_clean:
  assumes "sep \<noteq> []" "cleanBlock sep b"
  shows "splitFrom sep cur (b @ sep @ rest) = (cur @ b) # splitFrom sep [] rest"
  using assms(2)
proof (induction b arbitrary: cur)
  case Nil
  obtain c cs where sep: "sep = c # cs" using assms(1) by (cases sep) auto
  show ?case unfolding sep by simp
next
  case (Cons x xs)
  have "\<not> prefix sep ((x # xs) @ sep)" using Cons.prems by simp
  moreover have "prefix sep (((x # xs) @ sep) @ rest) = prefix sep ((x # xs) @ sep)"
    by (rule prefix_append_long) simp
  ultimately have np: "\<not> prefix sep (x # xs @ sep @ rest)" by simp
  have "cleanBlock sep xs" using Cons.prems by simp
  then have "splitFrom sep (cur @ [x]) (xs @ sep @ rest) = ((cur @ [x]) @ xs) # splitFrom sep [] rest"
    by (rule Cons.IH)
  then show ?case using np by simp
qed

lemma split_joinBlocks:
  "\<forall>b\<in>set bs. cleanBlock (ascii ''---'') b \<Longrightarrow> split (ascii ''---'') (joinBlocks bs) = bs @ [[]]"
proof (induction bs)
  case Nil
  then show ?case by (simp add: split_def joinBlocks_def)
next
  case (Cons b bs)
  have ne: "ascii ''---'' \<noteq> []" by (simp add: ascii_def)
  have cb: "cleanBlock (ascii ''---'') b" using Cons.prems by simp
  have "splitFrom (ascii ''---'') [] (b @ ascii ''---'' @ joinBlocks bs)
          = ([] @ b) # splitFrom (ascii ''---'') [] (joinBlocks bs)"
    using ne cb by (rule splitFrom_clean)
  moreover have "joinBlocks (b # bs) = b @ ascii ''---'' @ joinBlocks bs"
    by (simp add: joinBlocks_def)
  moreover have "splitFrom (ascii ''---'') [] (joinBlocks bs) = bs @ [[]]"
    using Cons by (simp add: split_def)
  ultimately show ?case by (simp add: split_def)
qed

lemma pushBlock_acc: "pushBlock acc b = acc @ pushBlock [] b"
  by (simp add: pushBlock_def split: option.splits)

lemma foldl_pushBlock: "foldl pushBlock acc bs = acc @ concat (map (pushBlock []) bs)"
proof (induction bs arbitrary: acc)
  case Nil
  then show ?case by simp
next
  case (Cons b bs)
  have "foldl pushBlock (pushBlock acc b) bs = pushBlock acc b @ concat (map (pushBlock []) bs)"
    by (rule Cons.IH)
  then show ?case using pushBlock_acc[of acc b] by simp
qed

lemma parseLines_concat:
  "parseLines txt = concat (map (pushBlock []) (split (ascii ''---'') txt))"
  using foldl_pushBlock[of "[]"] by (simp add: parseLines_def)

lemma pushBlock_empty: "pushBlock acc [] = acc"
  by (simp add: pushBlock_def trim_def)

lemma parseLines_joinBlocks:
  assumes "\<forall>b\<in>set bs. cleanBlock (ascii ''---'') b"
  shows "parseLines (joinBlocks bs) = concat (map (pushBlock []) bs)"
  using split_joinBlocks[OF assms] by (simp add: parseLines_concat pushBlock_empty)

lemma pushBlock_no_time: "timeMatch b = None \<Longrightarrow> pushBlock acc b = acc"
  by (simp add: pushBlock_def)

lemma pushBlock_time: "timeMatch b = Some tm \<Longrightarrow> pushBlock acc b = acc @ [mkLine tm b]"
  using timeMatch_not_blank[of b tm] by (simp add: pushBlock_def)

lemma mkLine_times:
  assumes "timeMatch b = Some tm"
  shows "startTime (mkLine tm b) = tm ! 0 \<and> endTime (mkLine tm b) = tm ! 1
         \<and> tm ! 0 \<noteq> [] \<and> tm ! 1 \<noteq> []"
proof -
  obtain a c where ac: "tm = [a, c]" "a \<noteq> []" "c \<noteq> []" "\<forall>x\<in>set a. isTimeChar x"
      "\<forall>x\<in>set c. isTimeChar x"
    using timeMatch_Some[OF assms] by (elim exE conjE)
  have "trim a = a" using ac(4) isTimeChar_not_space by (intro trim_id) blast
  moreover have "trim c = c" using ac(5) isTimeChar_not_space by (intro trim_id) blast
  ultimately show ?thesis using ac(1,2,3) by (simp add: mkLine_def)
qed

lemma pushBlock_times:
  "l \<in> set (pushBlock [] b) \<Longrightarrow> startTime l \<noteq> [] \<and> endTime l \<noteq> []"
proof (cases "timeMatch b")
  case None
  assume "l \<in> set (pushBlock [] b)"
  then show ?thesis using None by (simp add: pushBlock_no_time)
next
  case (Some tm)
  assume "l \<in> set (pushBlock [] b)"
  then have "l = mkLine tm b" using Some by (simp add: pushBlock_time)
  then show ?thesis using mkLine_times[OF Some] by simp
qed

section \<open>Exact arithmetic on whole numbers\<close>

lemma roundHalfEven_of_int: "roundHalfEven (of_int z) = z"
  by (simp add: roundHalfEven_def)

lemma ilog2_of_int:
  assumes "0 < p"
  shows "ilog2 (of_int p) = bitlen p - 1"
proof -
  have b1: "bitlen 1 = 1" by (simp add: bitlen_alt_def)
  have ge: "1 \<le> bitlen p" using assms by (simp add: bitlen_ge_iff_power)
  have "2 ^ nat (bitlen p - 1) \<le> p" using bitlen_bounds[OF assms] by blast
  then have "(of_int (2 ^ nat (bitlen p - 1)) :: rat) \<le> of_int p" by (simp only: of_int_le_iff)
  then have "pow2 (bitlen p - 1) \<le> of_int p" using ge by (simp add: pow2_def)
  then show ?thesis by (simp add: ilog2_def b1)
qed

lemma round64_pos_int:
  assumes "0 < p" "p < 2 ^ 53"
  shows "round64 (of_int p) = Fin (of_int p)" and "round64 (- of_int p) = Fin (- of_int p)"
proof -
  define k where "k = bitlen p - 1"
  define j where "j = nat (52 - k)"
  have "1 \<le> bitlen p" using assms(1) by (simp add: bitlen_ge_iff_power)
  then have ge: "0 \<le> k" by (simp add: k_def)
  have "bitlen p \<le> 53" using assms(2) by (simp add: bitlen_le_iff_power)
  then have le: "k \<le> 52" by (simp add: k_def)
  have il: "ilog2 (of_int p) = k" using assms(1) by (simp add: ilog2_of_int k_def)
  have mx: "max k (- 1022) = k" using ge by simp
  have pw: "pow2 (k - 52) = 1 / 2 ^ j"
  proof (cases "k = 52")
    case True
    then show ?thesis by (simp add: pow2_def j_def)
  next
    case False
    then have "k - 52 < 0" using le by simp
    then show ?thesis by (simp add: pow2_def j_def)
  qed
  have q: "(of_int p :: rat) / (1 / 2 ^ j) = of_int (p * 2 ^ j)" by simp
  have pk: "\<And>neg. pack neg k (p * 2 ^ j) = Fin ((if neg then - 1 else 1) * of_int p)"
    using le by (simp add: pack_def pw)
  have pn: "(of_int p :: rat) \<noteq> 0" "\<not> (of_int p :: rat) < 0" "\<bar>of_int p :: rat\<bar> = of_int p"
    using assms(1) by simp_all
  show "round64 (of_int p) = Fin (of_int p)"
    unfolding round64_def roundAt_def
    by (simp only: pn il mx pw q roundHalfEven_of_int pk if_False) simp
  have nn: "(- of_int p :: rat) \<noteq> 0" "(- of_int p :: rat) < 0" "\<bar>- of_int p :: rat\<bar> = of_int p"
    using assms(1) by simp_all
  show "round64 (- of_int p) = Fin (- of_int p)"
    unfolding round64_def roundAt_def
    by (simp only: nn il mx pw q roundHalfEven_of_int pk if_False if_True) simp
qed

lemma round64_of_int:
  assumes "\<bar>n\<bar> < 2 ^ 53"
  shows "round64 (of_int n) = Fin (of_int n)"
proof -
  consider "n = 0" | "0 < n" | "n < 0" by linarith
  then show ?thesis
  proof cases
    case 1
    then show ?thesis by (simp add: round64_def)
  next
    case 2
    then show ?thesis using assms round64_pos_int(1)[of n] by simp
  next
    case 3
    then have "0 < - n" "- n < 2 ^ 53" using assms by simp_all
    then have "round64 (- of_int (- n)) = Fin (- of_int (- n))" by (rule round64_pos_int(2))
    then show ?thesis by simp
  qed
qed

lemma jmul_int:
  "\<bar>a * b\<bar> < 2 ^ 53 \<Longrightarrow> jmul (Fin (of_int a)) (Fin (of_int b)) = Fin (of_int (a * b))"
  using round64_of_int[of "a * b"] by simp

lemma jadd_int:
  "\<bar>a + b\<bar> < 2 ^ 53 \<Longrightarrow> jadd (Fin (of_int a)) (Fin (of_int b)) = Fin (of_int (a + b))"
  using round64_of_int[of "a + b"] by simp

lemma digitsValue_foldl_nonneg:
  "0 \<le> a \<Longrightarrow> \<forall>c\<in>set ds. isDigit c \<Longrightarrow> 0 \<le> foldl (\<lambda>a c. 10 * a + (c - 48)) a ds"
proof (induction ds arbitrary: a)
  case Nil
  then show ?case by simp
next
  case (Cons c cs)
  have "0 \<le> 10 * a + (c - 48)" using Cons.prems by (simp add: isDigit_def)
  then show ?case using Cons by simp
qed

lemma digitsValue_nonneg: "\<forall>c\<in>set ds. isDigit c \<Longrightarrow> 0 \<le> digitsValue ds"
  unfolding digitsValue_def by (rule digitsValue_foldl_nonneg) simp_all

lemma parseFloat_digits:
  assumes "ds \<noteq> []" "\<forall>c\<in>set ds. isDigit c" "digitsValue ds < 2 ^ 53"
  shows "parseFloat ds = Fin (of_int (digitsValue ds))"
proof -
  obtain c cs where ds: "ds = c # cs" using assms(1) by (cases ds) auto
  have c: "isDigit c" using assms(2) ds by simp
  then have nws: "\<not> isWhiteSpace c" and nsign: "c \<noteq> 45" "c \<noteq> 43" and ninf: "c \<noteq> 73"
    by (auto simp: isDigit_def isWhiteSpace_def)
  have tk: "takeWhile isDigit ds = ds" "dropWhile isDigit ds = []"
    using assms(2) by simp_all
  have ud: "unsignedDecimal ds = Some (of_int (digitsValue ds))"
    using assms(1)
    by (simp add: unsignedDecimal_def tk decimalValue_def fractionDigits_def afterFraction_def
        exponentPart_def pow10_def digitsValue_def)
  have np: "\<not> prefix (ascii ''Infinity'') ds" using ninf ds by (simp add: ascii_def)
  have ab: "\<bar>digitsValue ds\<bar> < 2 ^ 53" using assms(3) digitsValue_nonneg[OF assms(2)] by simp
  have "strDecimalLiteral False ds = Fin (of_int (digitsValue ds))"
    using np ud round64_of_int[OF ab] by (simp add: strDecimalLiteral_def)
  moreover have "parseFloat ds = strDecimalLiteral False ds"
    using nws nsign unfolding ds by (simp add: parseFloat_def)
  ultimately show ?thesis by simp
qed

section \<open>Claims about handleSeek\<close>

text \<open>
  Claim C10. A timestamp with three or more colons splits into four or more parts, none
  of the three length tests of \<open>handleSeek\<close> applies, and \<open>seconds\<close> keeps its initial
  value 0: the timestamp is not treated as invalid, and with a video element mounted
  its position is set to 0 and playback is started.
\<close>

theorem handleSeek_many_colons:
  assumes "3 \<le> count_list time 58"
  shows "seekSeconds time = Fin 0 \<and> \<not> isNaN (seekSeconds time) \<and>
         handleSeek time (Some v) = Inr (Some (v\<lparr>commands := commands v @ [SetCurrentTime 0, Play]\<rparr>))"
proof -
  have len: "4 \<le> length (map parseFloat (split (ascii '':'') time))"
    using assms by (simp add: split_colon_length)
  have s: "seekSeconds time = Fin 0"
    using len by (simp add: seekSeconds_def Let_def)
  show ?thesis by (simp add: s handleSeek_def isNaN_def)
qed

theorem handleSeek_many_colons_witness:
  "3 \<le> count_list (ascii ''1:2:3:4'') 58 \<and>
   handleSeek (ascii ''1:2:3:4'') (Some \<lparr>commands = []\<rparr>)
     = Inr (Some \<lparr>commands = [SetCurrentTime 0, Play]\<rparr>)"
  using handleSeek_many_colons[of "ascii ''1:2:3:4''" "\<lparr>commands = []\<rparr>"]
  by (simp add: ascii_def)

text \<open>
  Claim C8. When the converted total is not-a-number, \<open>handleSeek\<close> returns normally
  and leaves the video element as it was: no position is set, \<open>play\<close> is not called, and
  nothing is thrown.
\<close>

theorem handleSeek_invalid_noop:
  "isNaN (seekSeconds time) \<Longrightarrow> handleSeek time videoRef = Inr videoRef"
  by (cases videoRef) (simp_all add: handleSeek_def)

lemma seekSeconds_abc: "seekSeconds (ascii ''abc'') = NaN"
  by code_simp

theorem handleSeek_invalid_noop_witness:
  "isNaN (seekSeconds (ascii ''abc'')) \<and>
   handleSeek (ascii ''abc'') (Some \<lparr>commands = [Play]\<rparr>) = Inr (Some \<lparr>commands = [Play]\<rparr>)"
  using handleSeek_invalid_noop[of "ascii ''abc''" "Some \<lparr>commands = [Play]\<rparr>"]
  by (simp add: seekSeconds_abc isNaN_def)

lemma digit_not_colon: "\<forall>c\<in>set ds. isDigit c \<Longrightarrow> 58 \<notin> set ds"
  by (auto simp: isDigit_def)

lemma seekSeconds_digits1:
  assumes "t \<noteq> []" "\<forall>c\<in>set t. isDigit c" "digitsValue t < 2 ^ 53"
  shows "seekSeconds t = Fin (of_int (digitsValue t))"
  using assms parseFloat_digits[OF assms] digit_not_colon[OF assms(2)]
  by (simp add: seekSeconds_def split_colon_one)

lemma seekSeconds_digits2:
  assumes "m \<noteq> []" "\<forall>c\<in>set m. isDigit c" "s \<noteq> []" "\<forall>c\<in>set s. isDigit c"
    and "digitsValue m * 60 + digitsValue s < 2 ^ 53"
  shows "seekSeconds (m @ 58 # s) = Fin (of_int (digitsValue m * 60 + digitsValue s))"
proof -
  have m0: "0 \<le> digitsValue m" and s0: "0 \<le> digitsValue s"
    using assms(2,4) by (simp_all add: digitsValue_nonneg)
  have mb: "digitsValue m < 2 ^ 53" and sb: "digitsValue s < 2 ^ 53"
    using m0 s0 assms(5) by simp_all
  have pm: "parseFloat m = Fin (of_int (digitsValue m))"
    using assms(1,2) mb by (rule parseFloat_digits)
  have ps: "parseFloat s = Fin (of_int (digitsValue s))"
    using assms(3,4) sb by (rule parseFloat_digits)
  have "\<bar>digitsValue m * 60\<bar> < 2 ^ 53" using m0 s0 assms(5) by simp
  then have mul: "jmul (Fin (of_int (digitsValue m))) (Fin (of_int 60))
                    = Fin (of_int (digitsValue m * 60))"
    by (rule jmul_int)
  have "\<bar>digitsValue m * 60 + digitsValue s\<bar> < 2 ^ 53" using m0 s0 assms(5) by simp
  then have add: "jadd (Fin (of_int (digitsValue m * 60))) (Fin (of_int (digitsValue s)))
                    = Fin (of_int (digitsValue m * 60 + digitsValue s))"
    by (rule jadd_int)
  have "seekSeconds (m @ 58 # s) = jadd (jmul (parseFloat m) (Fin 60)) (parseFloat s)"
    using digit_not_colon[OF assms(2)] digit_not_colon[OF assms(4)]
    by (simp add: seekSeconds_def split_colon_two)
  also have "\<dots> = jadd (jmul (Fin (of_int (digitsValue m))) (Fin (of_int 60)))
                       (Fin (of_int (digitsValue s)))"
    by (simp only: pm ps of_int_numeral)
  also have "\<dots> = Fin (of_int (digitsValue m * 60 + digitsValue s))"
    by (simp only: mul add)
  finally show ?thesis .
qed

lemma seekSeconds_digits3:
  assumes "h \<noteq> []" "\<forall>c\<in>set h. isDigit c" "m \<noteq> []" "\<forall>c\<in>set m. isDigit c"
    and "s \<noteq> []" "\<forall>c\<in>set s. isDigit c"
    and "digitsValue h * 3600 + digitsValue m * 60 + digitsValue s < 2 ^ 53"
  shows "seekSeconds (h @ 58 # m @ 58 # s)
           = Fin (of_int (digitsValue h * 3600 + digitsValue m * 60 + digitsValue s))"
proof -
  have h0: "0 \<le> digitsValue h" and m0: "0 \<le> digitsValue m" and s0: "0 \<le> digitsValue s"
    using assms(2,4,6) by (simp_all add: digitsValue_nonneg)
  have hb: "digitsValue h < 2 ^ 53" and mb: "digitsValue m < 2 ^ 53"
    and sb: "digitsValue s < 2 ^ 53"
    using h0 m0 s0 assms(7) by simp_all
  have ph: "parseFloat h = Fin (of_int (digitsValue h))"
    using assms(1,2) hb by (rule parseFloat_digits)
  have pm: "parseFloat m = Fin (of_int (digitsValue m))"
    using assms(3,4) mb by (rule parseFloat_digits)
  have ps: "parseFloat s = Fin (of_int (digitsValue s))"
    using assms(5,6) sb by (rule parseFloat_digits)
  have "\<bar>digitsValue h * 3600\<bar> < 2 ^ 53" using h0 m0 s0 assms(7) by simp
  then have mulh: "jmul (Fin (of_int (digitsValue h))) (Fin (of_int 3600))
                    = Fin (of_int (digitsValue h * 3600))"
    by (rule jmul_int)
  have "\<bar>digitsValue m * 60\<bar> < 2 ^ 53" using h0 m0 s0 assms(7) by simp
  then have mulm: "jmul (Fin (of_int (digitsValue m))) (Fin (of_int 60))
                    = Fin (of_int (digitsValue m * 60))"
    by (rule jmul_int)
  have "\<bar>digitsValue h * 3600 + digitsValue m * 60\<bar> < 2 ^ 53" using h0 m0 s0 assms(7) by simp
  then have add1: "jadd (Fin (of_int (digitsValue h * 3600))) (Fin (of_int (digitsValue m * 60)))
                    = Fin (of_int (digitsValue h * 3600 + digitsValue m * 60))"
    by (rule jadd_int)
  have "\<bar>digitsValue h * 3600 + digitsValue m * 60 + digitsValue s\<bar> < 2 ^ 53"
    using h0 m0 s0 assms(7) by simp
  then have add2: "jadd (Fin (of_int (digitsValue h * 3600 + digitsValue m * 60)))
                        (Fin (of_int (digitsValue s)))
                    = Fin (of_int (digitsValue h * 3600 + digitsValue m * 60 + digitsValue s))"
    by (rule jadd_int)
  have "seekSeconds (h @ 58 # m @ 58 # s)
          = jadd (jadd (jmul (parseFloat h) (Fin 3600)) (jmul (parseFloat m) (Fin 60))) (parseFloat s)"
    using digit_not_colon[OF assms(2)] digit_not_colon[OF assms(4)] digit_not_colon[OF assms(6)]
    by (simp add: seekSeconds_def split_colon_three)
  also have "\<dots> = jadd (jadd (jmul (Fin (of_int (digitsValue h))) (Fin (of_int 3600)))
                             (jmul (Fin (of_int (digitsValue m))) (Fin (of_int 60))))
                       (Fin (of_int (digitsValue s)))"
    by (simp only: ph pm ps of_int_numeral)
  also have "\<dots> = Fin (of_int (digitsValue h * 3600 + digitsValue m * 60 + digitsValue s))"
    by (simp only: mulh mulm add1 add2)
  finally show ?thesis .
qed

text \<open>
  Claim C1. The conversion of \<open>handleSeek\<close>: without a colon the whole string goes through
  \<open>parseFloat\<close>; with one colon the result is minutes times 60 plus seconds; with two
  colons hours times 3600 plus minutes times 60 plus seconds. The products and sums are
  those of binary64 numbers, which are the exact ones on whole numbers below \<open>2^53\<close>: for
  parts written in decimal digits the result is the number \<open>m * 60 + s\<close>, respectively
  \<open>h * 3600 + m * 60 + s\<close>. The seek is skipped exactly when the total is not-a-number.
  The six examples of the specification are evaluated, and four more whose minutes and
  hours are not 1.
\<close>

theorem seekSeconds_by_colons:
  "(count_list t 58 = 0 \<longrightarrow> seekSeconds t = parseFloat t) \<and>
   (58 \<notin> set m \<and> 58 \<notin> set s \<longrightarrow>
      seekSeconds (m @ 58 # s) = jadd (jmul (parseFloat m) (Fin 60)) (parseFloat s)) \<and>
   (58 \<notin> set h \<and> 58 \<notin> set m \<and> 58 \<notin> set s \<longrightarrow>
      seekSeconds (h @ 58 # m @ 58 # s)
        = jadd (jadd (jmul (parseFloat h) (Fin 3600)) (jmul (parseFloat m) (Fin 60))) (parseFloat s)) \<and>
   (t \<noteq> [] \<and> (\<forall>c\<in>set t. isDigit c) \<and> digitsValue t < 2 ^ 53 \<longrightarrow>
      seekSeconds t = Fin (of_int (digitsValue t))) \<and>
   (m \<noteq> [] \<and> (\<forall>c\<in>set m. isDigit c) \<and> s \<noteq> [] \<and> (\<forall>c\<in>set s. isDigit c)
      \<and> digitsValue m * 60 + digitsValue s < 2 ^ 53 \<longrightarrow>
      seekSeconds (m @ 58 # s) = Fin (of_int (digitsValue m * 60 + digitsValue s))) \<and>
   (h \<noteq> [] \<and> (\<forall>c\<in>set h. isDigit c) \<and> m \<noteq> [] \<and> (\<forall>c\<in>set m. isDigit c)
      \<and> s \<noteq> [] \<and> (\<forall>c\<in>set s. isDigit c)
      \<and> digitsValue h * 3600 + digitsValue m * 60 + digitsValue s < 2 ^ 53 \<longrightarrow>
      seekSeconds (h @ 58 # m @ 58 # s)
        = Fin (of_int (digitsValue h * 3600 + digitsValue m * 60 + digitsValue s))) \<and>
   (\<bar>a * b\<bar> < 2 ^ 53 \<longrightarrow> jmul (Fin (of_int a)) (Fin (of_int b)) = Fin (of_int (a * b))) \<and>
   (\<bar>a + b\<bar> < 2 ^ 53 \<longrightarrow> jadd (Fin (of_int a)) (Fin (of_int b)) = Fin (of_int (a + b))) \<and>
   (handleSeek t (Some v) = Inr (Some v) \<longleftrightarrow> isNaN (seekSeconds t)) \<and>
   seekSeconds (ascii ''90'') = Fin 90 \<and>
   seekSeconds (ascii ''1:30'') = Fin 90 \<and>
   seekSeconds (ascii ''1:01:30'') = Fin 3690 \<and>
   seekSeconds (ascii ''12.5'') = Fin (25 / 2) \<and>
   isNaN (seekSeconds (ascii ''abc'')) \<and>
   isNaN (seekSeconds (ascii '''')) \<and>
   seekSeconds (ascii ''2:15'') = Fin 135 \<and>
   seekSeconds (ascii ''2:03:04'') = Fin 7384 \<and>
   seekSeconds (ascii ''0:02.5'') = Fin (5 / 2) \<and>
   seekSeconds (ascii ''1.5:00'') = Fin 90"
proof -
  have one: "count_list t 58 = 0 \<longrightarrow> seekSeconds t = parseFloat t"
    by (simp add: seekSeconds_def split_colon_one count_list_0_iff)
  have two: "58 \<notin> set m \<and> 58 \<notin> set s \<longrightarrow>
      seekSeconds (m @ 58 # s) = jadd (jmul (parseFloat m) (Fin 60)) (parseFloat s)"
    by (simp add: seekSeconds_def split_colon_two)
  have three: "58 \<notin> set h \<and> 58 \<notin> set m \<and> 58 \<notin> set s \<longrightarrow>
      seekSeconds (h @ 58 # m @ 58 # s)
        = jadd (jadd (jmul (parseFloat h) (Fin 3600)) (jmul (parseFloat m) (Fin 60))) (parseFloat s)"
    by (simp add: seekSeconds_def split_colon_three)
  have d1: "t \<noteq> [] \<and> (\<forall>c\<in>set t. isDigit c) \<and> digitsValue t < 2 ^ 53 \<longrightarrow>
      seekSeconds t = Fin (of_int (digitsValue t))"
    using seekSeconds_digits1 by blast
  have d2: "m \<noteq> [] \<and> (\<forall>c\<in>set m. isDigit c) \<and> s \<noteq> [] \<and> (\<forall>c\<in>set s. isDigit c)
      \<and> digitsValue m * 60 + digitsValue s < 2 ^ 53 \<longrightarrow>
      seekSeconds (m @ 58 # s) = Fin (of_int (digitsValue m * 60 + digitsValue s))"
    using seekSeconds_digits2 by blast
  have d3: "h \<noteq> [] \<and> (\<forall>c\<in>set h. isDigit c) \<and> m \<noteq> [] \<and> (\<forall>c\<in>set m. isDigit c)
      \<and> s \<noteq> [] \<and> (\<forall>c\<in>set s. isDigit c)
      \<and> digitsValue h * 3600 + digitsValue m * 60 + digitsValue s < 2 ^ 53 \<longrightarrow>
      seekSeconds (h @ 58 # m @ 58 # s)
        = Fin (of_int (digitsValue h * 3600 + digitsValue m * 60 + digitsValue s))"
    using seekSeconds_digits3 by blast
  have ar: "(\<bar>a * b\<bar> < 2 ^ 53 \<longrightarrow> jmul (Fin (of_int a)) (Fin (of_int b)) = Fin (of_int (a * b)))
       \<and> (\<bar>a + b\<bar> < 2 ^ 53 \<longrightarrow> jadd (Fin (of_int a)) (Fin (of_int b)) = Fin (of_int (a + b)))"
    using jmul_int jadd_int by blast
  have e1: "seekSeconds (ascii ''90'') = Fin 90" by code_simp
  have e2: "seekSeconds (ascii ''1:30'') = Fin 90" by code_simp
  have e3: "seekSeconds (ascii ''1:01:30'') = Fin 3690" by code_simp
  have e4: "seekSeconds (ascii ''12.5'') = Fin (25 / 2)" by code_simp
  have e5: "isNaN (seekSeconds (ascii ''abc''))" by code_simp
  have e6: "isNaN (seekSeconds (ascii ''''))" by code_simp
  have e7: "seekSeconds (ascii ''2:15'') = Fin 135" by code_simp
  have e8: "seekSeconds (ascii ''2:03:04'') = Fin 7384" by code_simp
  have e9: "seekSeconds (ascii ''0:02.5'') = Fin (5 / 2)" by code_simp
  have e10: "seekSeconds (ascii ''1.5:00'') = Fin 90" by code_simp
  show ?thesis
    by (intro conjI one two three d1 d2 d3 ar[THEN conjunct1] ar[THEN conjunct2]
        handleSeek_skip_iff e1 e2 e3 e4 e5 e6 e7 e8 e9 e10)
qed

theorem seekSeconds_by_colons_witness:
  "seekSeconds (ascii ''2:15'') = Fin 135
   \<and> seekSeconds (ascii ''7'') = Fin 7
   \<and> seekSeconds (ascii ''1:02:03'') = Fin 3723
   \<and> jmul (Fin 2) (Fin 60) = Fin 120
   \<and> jadd (Fin 120) (Fin 15) = Fin 135"
proof -
  have v: "digitsValue (ascii ''2'') = 2" "digitsValue (ascii ''15'') = 15"
    "digitsValue (ascii ''7'') = 7" "digitsValue (ascii ''1'') = 1"
    "digitsValue (ascii ''02'') = 2" "digitsValue (ascii ''03'') = 3"
    by (simp_all add: digitsValue_def ascii_def)
  have g: "ascii ''2'' \<noteq> [] \<and> (\<forall>c\<in>set (ascii ''2''). isDigit c)"
    "ascii ''15'' \<noteq> [] \<and> (\<forall>c\<in>set (ascii ''15''). isDigit c)"
    "ascii ''7'' \<noteq> [] \<and> (\<forall>c\<in>set (ascii ''7''). isDigit c)"
    "ascii ''1'' \<noteq> [] \<and> (\<forall>c\<in>set (ascii ''1''). isDigit c)"
    "ascii ''02'' \<noteq> [] \<and> (\<forall>c\<in>set (ascii ''02''). isDigit c)"
    "ascii ''03'' \<noteq> [] \<and> (\<forall>c\<in>set (ascii ''03''). isDigit c)"
    by (simp_all add: isDigit_def ascii_def)
  have a: "seekSeconds (ascii ''2'' @ 58 # ascii ''15'') = Fin 135"
    using seekSeconds_by_colons[where m = "ascii ''2''" and s = "ascii ''15''" and t = "[]"
        and h = "[]" and a = 0 and b = 0] g v
    by simp
  have b: "seekSeconds (ascii ''7'') = Fin 7"
    using seekSeconds_by_colons[where t = "ascii ''7''" and m = "[]" and s = "[]"
        and h = "[]" and a = 0 and b = 0] g v
    by simp
  have c: "seekSeconds (ascii ''1'' @ 58 # ascii ''02'' @ 58 # ascii ''03'') = Fin 3723"
    using seekSeconds_by_colons[where h = "ascii ''1''" and m = "ascii ''02''"
        and s = "ascii ''03''" and t = "[]" and a = 0 and b = 0] g v
    by simp
  have d: "jmul (Fin 2) (Fin 60) = Fin 120 \<and> jadd (Fin 120) (Fin 15) = Fin 135"
    using seekSeconds_by_colons[where a = 2 and b = 60 and t = "[]" and m = "[]" and s = "[]"
        and h = "[]"]
      seekSeconds_by_colons[where a = 120 and b = 15 and t = "[]" and m = "[]" and s = "[]"
        and h = "[]"]
    by simp
  have x: "ascii ''2'' @ 58 # ascii ''15'' = ascii ''2:15''"
    "ascii ''1'' @ 58 # ascii ''02'' @ 58 # ascii ''03'' = ascii ''1:02:03''"
    by (simp_all add: ascii_def)
  show ?thesis using a b c d unfolding x by blast
qed

section \<open>Claims about parseScript\<close>

lemmas decode_eval = parseLines_def pushBlock_def mkLine_def trimmedOr_def fieldMatch_def
  timeMatch_def fieldRe_def timeRangeRe_def timeClass_def jsMatch_def canon_def trim_def
  split_def ascii_def isWhiteSpace_def isLineTerminator_def isDigit_def enDash_def
  joinBlocks_def fieldLabels_def

text \<open>
  Claim C2. A text made of N blocks, each terminated by the delimiter \<open>---\<close> and each with
  a recognizable bracketed time range, decodes to exactly N ScriptLine records, the
  i-th record built from the i-th block, whatever labeled fields the blocks carry and
  whatever the order of their timestamps; for N > 0 this sequence is what \<open>parseScript\<close>
  stores.
\<close>

theorem parseScript_one_line_per_block:
  assumes "\<forall>b\<in>set bs. cleanBlock (ascii ''---'') b \<and> timeMatch b \<noteq> None"
  shows "parseLines (joinBlocks bs) = map (\<lambda>b. mkLine (the (timeMatch b)) b) bs
         \<and> length (parseLines (joinBlocks bs)) = length bs
         \<and> (bs \<noteq> [] \<longrightarrow> script (parseScript (joinBlocks bs) st)
                             = Some (map (\<lambda>b. mkLine (the (timeMatch b)) b) bs))"
proof -
  have clean: "\<forall>b\<in>set bs. cleanBlock (ascii ''---'') b" using assms by blast
  have each: "\<And>b. b \<in> set bs \<Longrightarrow> pushBlock [] b = [mkLine (the (timeMatch b)) b]"
  proof -
    fix b assume "b \<in> set bs"
    then obtain tm where "timeMatch b = Some tm" using assms by auto
    then show "pushBlock [] b = [mkLine (the (timeMatch b)) b]"
      using pushBlock_time[of b tm "[]"] by simp
  qed
  have "concat (map (pushBlock []) bs) = map (\<lambda>b. mkLine (the (timeMatch b)) b) bs"
    using each by (induction bs) simp_all
  then have eq: "parseLines (joinBlocks bs) = map (\<lambda>b. mkLine (the (timeMatch b)) b) bs"
    using parseLines_joinBlocks[OF clean] by simp
  then show ?thesis by (simp add: parseScript_def)
qed

theorem parseScript_one_line_per_block_witness:
  "cleanBlock (ascii ''---'') (ascii ''[0:10 '' @ [8211] @ ascii '' 0:15]S: hi'')
   \<and> timeMatch (ascii ''[0:10 '' @ [8211] @ ascii '' 0:15]S: hi'') \<noteq> None
   \<and> cleanBlock (ascii ''---'') (ascii ''[0:00 - 0:05]'')
   \<and> timeMatch (ascii ''[0:00 - 0:05]'') \<noteq> None
   \<and> map startTime (parseLines (joinBlocks
        [ascii ''[0:10 '' @ [8211] @ ascii '' 0:15]S: hi'', ascii ''[0:00 - 0:05]'']))
      = [ascii ''0:10'', ascii ''0:00'']"
proof -
  define b1 where "b1 = ascii ''[0:10 '' @ [8211] @ ascii '' 0:15]S: hi''"
  define b2 where "b2 = ascii ''[0:00 - 0:05]''"
  have t1: "timeMatch b1 = Some [ascii ''0:10'', ascii ''0:15'']"
    by (simp add: b1_def decode_eval)
  have t2: "timeMatch b2 = Some [ascii ''0:00'', ascii ''0:05'']"
    by (simp add: b2_def decode_eval)
  have c1: "cleanBlock (ascii ''---'') b1" by (simp add: b1_def ascii_def)
  have c2: "cleanBlock (ascii ''---'') b2" by (simp add: b2_def ascii_def)
  have h: "\<forall>b\<in>set [b1, b2]. cleanBlock (ascii ''---'') b \<and> timeMatch b \<noteq> None"
    by (simp add: t1 t2 c1 c2)
  have "parseLines (joinBlocks [b1, b2]) = map (\<lambda>b. mkLine (the (timeMatch b)) b) [b1, b2]"
    using parseScript_one_line_per_block[OF h] by (rule conjunct1)
  then have "map startTime (parseLines (joinBlocks [b1, b2])) = [ascii ''0:10'', ascii ''0:00'']"
    by (simp add: t1 t2 mkLine_def trim_def ascii_def isWhiteSpace_def)
  then show ?thesis using t1 t2 c1 c2 unfolding b1_def b2_def by simp
qed




text \<open>
  Claim C5. Every emitted ScriptLine has a non-empty \<open>startTime\<close> and \<open>endTime\<close>. The
  decoded sequence is the concatenation of what each block contributes on its own; a
  block without a recognizable time range contributes nothing, and removing it from
  the input changes nothing in the result.
\<close>

theorem parseScript_times_nonempty:
  "(\<forall>l\<in>set (parseLines txt). startTime l \<noteq> [] \<and> endTime l \<noteq> [])
   \<and> parseLines txt = concat (map (pushBlock []) (split (ascii ''---'') txt))
   \<and> (timeMatch b = None \<longrightarrow> pushBlock acc b = acc)
   \<and> (timeMatch b = None \<longrightarrow>
        foldl pushBlock [] (xs @ b # ys) = foldl pushBlock [] (xs @ ys))
   \<and> (timeMatch b = None \<and> (\<forall>x\<in>set (xs @ b # ys). cleanBlock (ascii ''---'') x) \<longrightarrow>
        parseLines (joinBlocks (xs @ b # ys)) = parseLines (joinBlocks (xs @ ys)))"
proof -
  have a: "\<forall>l\<in>set (parseLines txt). startTime l \<noteq> [] \<and> endTime l \<noteq> []"
    using pushBlock_times by (auto simp: parseLines_concat)
  have c: "timeMatch b = None \<longrightarrow> pushBlock acc b = acc"
    by (simp add: pushBlock_no_time)
  have d: "timeMatch b = None \<longrightarrow>
        foldl pushBlock [] (xs @ b # ys) = foldl pushBlock [] (xs @ ys)"
    by (simp add: pushBlock_no_time)
  have e: "timeMatch b = None \<and> (\<forall>x\<in>set (xs @ b # ys). cleanBlock (ascii ''---'') x) \<longrightarrow>
        parseLines (joinBlocks (xs @ b # ys)) = parseLines (joinBlocks (xs @ ys))"
  proof (intro impI, elim conjE)
    assume n: "timeMatch b = None" and cl: "\<forall>x\<in>set (xs @ b # ys). cleanBlock (ascii ''---'') x"
    have cl2: "\<forall>x\<in>set (xs @ ys). cleanBlock (ascii ''---'') x" using cl by simp
    show "parseLines (joinBlocks (xs @ b # ys)) = parseLines (joinBlocks (xs @ ys))"
      using n by (simp add: parseLines_joinBlocks[OF cl] parseLines_joinBlocks[OF cl2]
                    pushBlock_no_time)
  qed
  show ?thesis using a parseLines_concat[of "txt"] c d e by blast
qed

theorem parseScript_times_nonempty_witness:
  "timeMatch (ascii ''Here is the script:'') = None
   \<and> list_all (cleanBlock (ascii ''---''))
        ([ascii ''[0:00 - 0:05]''] @ ascii ''Here is the script:'' # [ascii ''[0:05 - 0:09]''])
   \<and> parseLines (joinBlocks ([ascii ''[0:00 - 0:05]''] @ ascii ''Here is the script:''
                                # [ascii ''[0:05 - 0:09]'']))
       = parseLines (joinBlocks ([ascii ''[0:00 - 0:05]''] @ [ascii ''[0:05 - 0:09]'']))
   \<and> list_all (\<lambda>l. startTime l \<noteq> [] \<and> endTime l \<noteq> []) (parseLines (ascii ''[0:00 - 0:05]---''))
   \<and> parseLines (ascii ''[0:00 - 0:05]---'') \<noteq> []"
proof -
  have n: "timeMatch (ascii ''Here is the script:'') = None"
    by (simp add: decode_eval)
  have cl: "\<forall>x\<in>set ([ascii ''[0:00 - 0:05]''] @ ascii ''Here is the script:'' # [ascii ''[0:05 - 0:09]'']).
        cleanBlock (ascii ''---'') x"
    by (simp add: ascii_def)
  have ne: "parseLines (ascii ''[0:00 - 0:05]---'') \<noteq> []"
    by (simp add: decode_eval)
  show ?thesis
    using n cl ne
      parseScript_times_nonempty[of "ascii ''[0:00 - 0:05]---''" "ascii ''Here is the script:''"
        "[]" "[ascii ''[0:00 - 0:05]'']" "[ascii ''[0:05 - 0:09]'']"]
    unfolding list_all_iff by blast
qed

text \<open>
  Claim C9, as stated, fails: when no line is recovered, \<open>parseScript\<close> takes the branch
  that sets the error and does not write the script state, so a script held before
  stays in place.
\<close>

theorem parseScript_replaces_counterexample:
  "script (parseScript (ascii ''no entries here'')
             \<lparr>error = None,
              script = Some [\<lparr> person = ascii ''Kumar'', startTime = ascii ''0:00'',
                               endTime = ascii ''0:05'', dialogue = [],
                               versions = \<lparr> spoken = [], tanglish = [], syncShort = [] \<rparr>,
                               emotion = Some (ascii ''Neutral''), confidenceScore = None,
                               actionDescription = Some [], originalMeaning = Some [] \<rparr>]\<rparr>)
   \<noteq> Some (parseLines (ascii ''no entries here''))"
proof -
  have "parseLines (ascii ''no entries here'') = []"
    by (simp add: decode_eval)
  then show ?thesis by (simp add: parseScript_def)
qed

text \<open>
  Claim C9, amended. When at least one line is recovered the stored script becomes
  exactly the recovered sequence (nothing of the previous one is kept) and the error
  state is untouched; when no line is recovered the stored script is left as it was and
  the error message is set.
\<close>

theorem parseScript_replaces_when_recovered:
  "(parseLines txt \<noteq> [] \<longrightarrow>
      script (parseScript txt st) = Some (parseLines txt) \<and> error (parseScript txt st) = error st)
   \<and> (parseLines txt = [] \<longrightarrow>
      script (parseScript txt st) = script st \<and> error (parseScript txt st) = Some parsingError)"
  by (simp add: parseScript_def)

theorem parseScript_replaces_when_recovered_witness:
  "parseLines (ascii ''[0:00 - 0:05]'') \<noteq> []
   \<and> script (parseScript (ascii ''[0:00 - 0:05]'') \<lparr>error = None, script = Some []\<rparr>)
       = Some (parseLines (ascii ''[0:00 - 0:05]''))
   \<and> parseLines (ascii ''no entries here'') = []
   \<and> script (parseScript (ascii ''no entries here'') \<lparr>error = None, script = Some []\<rparr>) = Some []"
proof -
  have ne: "parseLines (ascii ''[0:00 - 0:05]'') \<noteq> []"
    by (simp add: decode_eval)
  have e: "parseLines (ascii ''no entries here'') = []"
    by (simp add: decode_eval)
  show ?thesis
    using ne e
      parseScript_replaces_when_recovered[of "ascii ''[0:00 - 0:05]''" "\<lparr>error = None, script = Some []\<rparr>"]
      parseScript_replaces_when_recovered[of "ascii ''no entries here''" "\<lparr>error = None, script = Some []\<rparr>"]
    by simp
qed

section \<open>The one-letter labels\<close>

lemma ciPrefix_take: "ciPrefix w s = ciPrefix w (take (length w) s)"
proof (induction w arbitrary: s)
  case Nil
  then show ?case by simp
next
  case (Cons x xs)
  then show ?case by (cases s) simp_all
qed

lemma ciOccurs_iff: "ciOccurs w s \<longleftrightarrow> (\<exists>v. suffix v s \<and> ciPrefix w v)"
proof (induction s)
  case Nil
  then show ?case by simp
next
  case (Cons c cs)
  then show ?case by (auto simp: suffix_Cons)
qed

lemma fieldMatch_first:
  assumes "\<not> ciOccurs (ascii l) (pre @ take (length l - 1) rest)"
    and "ciPrefix (ascii l) rest"
  shows "fieldMatch l (pre @ rest) = Some [fieldValue (drop (length l) rest)]"
proof -
  let ?f = "matchAt True (fieldRe l)"
  have len: "length (ascii l) = length l" by (simp add: ascii_def)
  have skip: "\<And>w. suffix w pre \<Longrightarrow> w \<noteq> [] \<Longrightarrow> ?f (w @ rest) = None"
  proof -
    fix w :: jstring
    assume sw: "suffix w pre" and ne: "w \<noteq> []"
    have "suffix (w @ take (length l - 1) rest) (pre @ take (length l - 1) rest)"
      using sw by (simp add: suffix_def)
    then have n: "\<not> ciPrefix (ascii l) (w @ take (length l - 1) rest)"
      using assms(1) ciOccurs_iff by blast
    have "length l - length w \<le> length l - 1" using ne by (cases w) auto
    then have "take (length l - length w) (take (length l - 1) rest) = take (length l - length w) rest"
      by (simp add: min_def)
    then have "take (length l) (w @ take (length l - 1) rest) = take (length l) (w @ rest)"
      by simp
    then have "ciPrefix (ascii l) (w @ rest) = ciPrefix (ascii l) (w @ take (length l - 1) rest)"
      using ciPrefix_take[of "ascii l" "w @ rest"]
        ciPrefix_take[of "ascii l" "w @ take (length l - 1) rest"] len by simp
    then show "?f (w @ rest) = None" using n by (simp add: fieldRe_closed)
  qed
  have "search ?f (pre @ rest) = search ?f rest" using skip by (rule search_skip)
  moreover have "?f rest = Some [fieldValue (drop (length l) rest)]"
    using assms(2) by (simp add: fieldRe_closed)
  ultimately show ?thesis by (simp add: fieldMatch_def jsMatch_def search_hit)
qed

section \<open>The two dash forms\<close>

lemma timeRange_chars:
  assumes "\<forall>x\<in>set a. isTimeChar x" "\<forall>x\<in>set b. isTimeChar x" "d = 45 \<or> d = enDash"
    and "c \<in> set (timeRange d a b)"
  shows "c = 91 \<or> c = 93 \<or> c = 32 \<or> c = 45 \<or> c = 8211 \<or> isTimeChar c"
  using assms by (auto simp: timeRange_def enDash_def)

lemma timeRange_tail_no_bracket:
  assumes "\<forall>x\<in>set a. isTimeChar x" "\<forall>x\<in>set b. isTimeChar x" "d \<noteq> 91"
    and "c \<in> set (tl (timeRange d a b))"
  shows "c \<noteq> 91"
  using assms by (auto simp: timeRange_def)

lemma suffix_nonempty_hd:
  assumes "suffix w (x # xs)" "w \<noteq> []"
  shows "w = x # xs \<or> hd w \<in> set xs"
proof (cases "w = x # xs")
  case True
  then show ?thesis by simp
next
  case False
  then have "suffix w xs" using assms(1) by (simp add: suffix_Cons)
  then obtain u where "xs = u @ w" by (auto simp: suffix_def)
  then show ?thesis using assms(2) by (cases w) auto
qed

lemma search_time_local:
  assumes "d \<noteq> 91" "v \<noteq> []" "hd v = 91"
  shows "search (matchAt False (timeRangeRe d)) (pre @ v) =
           (case search (matchAt False (timeRangeRe d)) pre of
              Some m \<Rightarrow> Some m
            | None \<Rightarrow> search (matchAt False (timeRangeRe d)) v)"
proof (rule search_local)
  fix w :: jstring
  assume w: "w \<noteq> []"
  obtain r where v: "v = 91 # r" using assms(2,3) by (cases v) auto
  have "timeAt d (w @ 91 # r) = timeAt d w" using w assms(1) by (rule timeAt_local)
  then show "matchAt False (timeRangeRe d) (w @ v) = matchAt False (timeRangeRe d) w"
    unfolding v by (simp only: timeRe_closed)
next
  show "matchAt False (timeRangeRe d) [] = None"
    by (simp only: timeRe_closed timeAt_Nil)
qed

lemma timeRange_hd: "timeRange d a b @ post \<noteq> [] \<and> hd (timeRange d a b @ post) = 91"
  by (simp add: timeRange_def)

lemma search_time_hit:
  assumes "a \<noteq> []" "b \<noteq> []" "\<forall>x\<in>set a. isTimeChar x" "\<forall>x\<in>set b. isTimeChar x"
  shows "search (matchAt False (timeRangeRe d)) (timeRange d a b @ post) = Some [a, b]"
proof -
  have "timeAt d (91 # a @ 32 # d # 32 # b @ 93 # post) = Some [a, b]"
    using assms by (rule timeAt_intro)
  then have "matchAt False (timeRangeRe d) (timeRange d a b @ post) = Some [a, b]"
    by (simp add: timeRe_closed timeRange_def del: matchAt.simps)
  then show ?thesis by (rule search_hit)
qed

lemma search_time_other_dash:
  assumes "a \<noteq> []" "\<forall>x\<in>set a. isTimeChar x" "\<forall>x\<in>set b. isTimeChar x"
    and "d \<noteq> e" "d \<noteq> 91"
  shows "search (matchAt False (timeRangeRe e)) (timeRange d a b @ post)
           = search (matchAt False (timeRangeRe e)) post"
proof (rule search_skip)
  fix w :: jstring
  assume sw: "suffix w (timeRange d a b)" and ne: "w \<noteq> []"
  have tr: "timeRange d a b = 91 # tl (timeRange d a b)" by (simp add: timeRange_def)
  have "w = timeRange d a b \<or> hd w \<in> set (tl (timeRange d a b))"
    using sw ne tr suffix_nonempty_hd[of w 91 "tl (timeRange d a b)"] by simp
  then show "matchAt False (timeRangeRe e) (w @ post) = None"
  proof
    assume w: "w = timeRange d a b"
    have ta: "takeWhile isTimeChar (a @ 32 # d # 32 # b @ 93 # post) = a"
      using assms(2) by (simp add: takeWhile_tail)
    have da: "dropWhile isTimeChar (a @ 32 # d # 32 # b @ 93 # post) = 32 # d # 32 # b @ 93 # post"
      using assms(2) by (simp add: dropWhile_append2)
    have "timeAt e (91 # a @ 32 # d # 32 # b @ 93 # post) = None"
      using assms(4) by (simp add: timeAt_def ta da)
    then show ?thesis unfolding w by (simp add: timeRe_closed timeRange_def del: matchAt.simps)
  next
    assume h: "hd w \<in> set (tl (timeRange d a b))"
    have "hd w \<noteq> 91" using assms(2,3,5) h by (rule timeRange_tail_no_bracket)
    moreover obtain c cs where "w = c # cs" using ne by (cases w) auto
    ultimately have "timeAt e (w @ post) = None" by (simp add: timeAt_not_bracket)
    then show ?thesis by (simp only: timeRe_closed)
  qed
qed

lemma timeMatch_None_both:
  "timeMatch s = None \<longleftrightarrow>
     jsMatch False (timeRangeRe enDash) s = None \<and> jsMatch False (timeRangeRe 45) s = None"
  by (simp add: timeMatch_def split: option.splits)

lemma timeMatch_enDash_form:
  assumes "a \<noteq> []" "b \<noteq> []" "\<forall>x\<in>set a. isTimeChar x" "\<forall>x\<in>set b. isTimeChar x"
    and "timeMatch pre = None"
  shows "timeMatch (pre @ timeRange enDash a b @ post) = Some [a, b]"
proof -
  have e: "enDash \<noteq> 91" by (simp add: enDash_def)
  have pe: "search (matchAt False (timeRangeRe enDash)) pre = None"
    using assms(5) by (simp add: timeMatch_None_both jsMatch_def)
  have "search (matchAt False (timeRangeRe enDash)) (pre @ timeRange enDash a b @ post)
      = (case search (matchAt False (timeRangeRe enDash)) pre of
           Some m \<Rightarrow> Some m
         | None \<Rightarrow> search (matchAt False (timeRangeRe enDash)) (timeRange enDash a b @ post))"
    using e timeRange_hd[THEN conjunct1] timeRange_hd[THEN conjunct2] by (rule search_time_local)
  then have "jsMatch False (timeRangeRe enDash) (pre @ timeRange enDash a b @ post) = Some [a, b]"
    using search_time_hit[OF assms(1-4), of enDash post] pe by (simp add: jsMatch_def)
  then show ?thesis by (simp add: timeMatch_def)
qed

lemma timeMatch_hyphen_form:
  assumes "a \<noteq> []" "b \<noteq> []" "\<forall>x\<in>set a. isTimeChar x" "\<forall>x\<in>set b. isTimeChar x"
    and "timeMatch pre = None" "jsMatch False (timeRangeRe enDash) post = None"
  shows "timeMatch (pre @ timeRange 45 a b @ post) = Some [a, b]"
proof -
  have e: "enDash \<noteq> 91" by (simp add: enDash_def)
  have h: "(45::int) \<noteq> 91" by simp
  have he: "(45::int) \<noteq> enDash" by (simp add: enDash_def)
  have pe: "search (matchAt False (timeRangeRe enDash)) pre = None"
    and ph: "search (matchAt False (timeRangeRe 45)) pre = None"
    using assms(5) by (simp_all add: timeMatch_None_both jsMatch_def)
  have qe: "search (matchAt False (timeRangeRe enDash)) post = None"
    using assms(6) by (simp add: jsMatch_def)
  have "search (matchAt False (timeRangeRe enDash)) (pre @ timeRange 45 a b @ post)
      = (case search (matchAt False (timeRangeRe enDash)) pre of
           Some m \<Rightarrow> Some m
         | None \<Rightarrow> search (matchAt False (timeRangeRe enDash)) (timeRange 45 a b @ post))"
    using e timeRange_hd[THEN conjunct1] timeRange_hd[THEN conjunct2] by (rule search_time_local)
  moreover have "search (matchAt False (timeRangeRe enDash)) (timeRange 45 a b @ post)
      = search (matchAt False (timeRangeRe enDash)) post"
    using assms(1,3,4) he h by (rule search_time_other_dash)
  ultimately have en: "jsMatch False (timeRangeRe enDash) (pre @ timeRange 45 a b @ post) = None"
    using qe pe by (simp add: jsMatch_def)
  have "search (matchAt False (timeRangeRe 45)) (pre @ timeRange 45 a b @ post)
      = (case search (matchAt False (timeRangeRe 45)) pre of
           Some m \<Rightarrow> Some m
         | None \<Rightarrow> search (matchAt False (timeRangeRe 45)) (timeRange 45 a b @ post))"
    using h timeRange_hd[THEN conjunct1] timeRange_hd[THEN conjunct2] by (rule search_time_local)
  then have "jsMatch False (timeRangeRe 45) (pre @ timeRange 45 a b @ post) = Some [a, b]"
    using search_time_hit[OF assms(1-4), of 45 post] ph by (simp add: jsMatch_def)
  then show ?thesis using en by (simp add: timeMatch_def)
qed

lemma ciPrefix_barrier:
  "\<forall>y\<in>set w. canon y \<noteq> canon x \<Longrightarrow> ciPrefix w (u @ x # t) = ciPrefix w u"
proof (induction w arbitrary: u)
  case Nil
  then show ?case by simp
next
  case (Cons y ys)
  then show ?case by (cases u) auto
qed

lemma label_chars:
  assumes "l \<in> set fieldLabels"
  shows "(\<forall>y\<in>set (ascii l). canon y \<noteq> canon 91)
         \<and> (\<exists>x xs. ascii l = x # xs \<and> 65 \<le> canon x \<and> canon x \<le> 90)"
  using assms by (auto simp: fieldLabels_def ascii_def canon_def)

lemma range_char_not_letter:
  assumes "c = 91 \<or> c = 93 \<or> c = 32 \<or> c = 45 \<or> c = 8211 \<or> isTimeChar c"
  shows "\<not> (65 \<le> canon c \<and> canon c \<le> 90)"
  using assms by (auto simp: canon_def isTimeChar_def isDigit_def)

lemma fieldMatch_skip_pre:
  assumes "l \<in> set fieldLabels" "fieldMatch l pre = None" "v \<noteq> []" "hd v = 91"
  shows "fieldMatch l (pre @ v) = fieldMatch l v"
proof -
  obtain r where v: "v = 91 # r" using assms(3,4) by (cases v) auto
  have bar: "\<forall>y\<in>set (ascii l). canon y \<noteq> canon 91"
    using label_chars[OF assms(1)] by (rule conjunct1)
  have "\<And>w. suffix w pre \<Longrightarrow> w \<noteq> [] \<Longrightarrow> matchAt True (fieldRe l) (w @ v) = None"
  proof -
    fix w :: jstring
    assume sw: "suffix w pre"
    have "matchAt True (fieldRe l) w = None"
      using assms(2) sw search_None_iff[of "matchAt True (fieldRe l)" pre]
      by (simp add: fieldMatch_def jsMatch_def)
    then have "\<not> ciPrefix (ascii l) w" by (simp add: fieldRe_closed split: if_splits)
    moreover have "ciPrefix (ascii l) (w @ 91 # r) = ciPrefix (ascii l) w"
      using bar by (rule ciPrefix_barrier)
    ultimately show "matchAt True (fieldRe l) (w @ v) = None"
      unfolding v by (simp add: fieldRe_closed)
  qed
  then have "search (matchAt True (fieldRe l)) (pre @ v) = search (matchAt True (fieldRe l)) v"
    by (rule search_skip)
  then show ?thesis by (simp add: fieldMatch_def jsMatch_def)
qed

lemma fieldMatch_skip_range:
  assumes "l \<in> set fieldLabels" "\<forall>x\<in>set a. isTimeChar x" "\<forall>x\<in>set b. isTimeChar x"
    and "d = 45 \<or> d = enDash"
  shows "fieldMatch l (timeRange d a b @ post) = fieldMatch l post"
proof -
  obtain x xs where lx: "ascii l = x # xs" and letter: "65 \<le> canon x \<and> canon x \<le> 90"
    using label_chars[OF assms(1)] by blast
  have "\<And>w. suffix w (timeRange d a b) \<Longrightarrow> w \<noteq> []
          \<Longrightarrow> matchAt True (fieldRe l) (w @ post) = None"
  proof -
    fix w :: jstring
    assume sw: "suffix w (timeRange d a b)" and ne: "w \<noteq> []"
    obtain c cs where w: "w = c # cs" using ne by (cases w) auto
    obtain u where "timeRange d a b = u @ w" using sw by (auto simp: suffix_def)
    then have "c \<in> set (timeRange d a b)" using w by simp
    then have "c = 91 \<or> c = 93 \<or> c = 32 \<or> c = 45 \<or> c = 8211 \<or> isTimeChar c"
      using assms(2,3,4) timeRange_chars by blast
    then have "\<not> (65 \<le> canon c \<and> canon c \<le> 90)" by (rule range_char_not_letter)
    then have "canon c \<noteq> canon x" using letter by auto
    then have "\<not> ciPrefix (ascii l) (w @ post)" unfolding lx w by simp
    then show "matchAt True (fieldRe l) (w @ post) = None" by (simp add: fieldRe_closed)
  qed
  then have "search (matchAt True (fieldRe l)) (timeRange d a b @ post)
               = search (matchAt True (fieldRe l)) post"
    by (rule search_skip)
  then show ?thesis by (simp add: fieldMatch_def jsMatch_def)
qed

lemma mkLine_same_fields:
  assumes "\<forall>l\<in>set fieldLabels. fieldMatch l x = fieldMatch l y"
  shows "mkLine tm x = mkLine tm y"
  using assms by (simp add: mkLine_def fieldLabels_def)

lemma ciPrefix_length: "ciPrefix w s \<Longrightarrow> length w \<le> length s"
proof (induction w arbitrary: s)
  case Nil
  then show ?case by simp
next
  case (Cons x xs)
  then show ?case by (cases s) auto
qed

lemma fieldValue_closed:
  assumes "lineClosed s"
  shows "fieldValue (s @ v) = fieldValue s"
proof -
  obtain x where x: "x \<in> set (dropWhile isWhiteSpace s)" "isLineTerminator x"
    using assms by (auto simp: lineClosed_def list_ex_iff)
  have "dropWhile isWhiteSpace s \<noteq> []" using x(1) by (metis empty_iff list.set(1))
  then have "\<not> (\<forall>y\<in>set s. isWhiteSpace y)" by (metis dropWhile_eq_Nil_conv)
  then have d: "dropWhile isWhiteSpace (s @ v) = dropWhile isWhiteSpace s @ v"
    by (auto simp: dropWhile_append)
  have "takeWhile (\<lambda>c. \<not> isLineTerminator c) (dropWhile isWhiteSpace s @ v)
          = takeWhile (\<lambda>c. \<not> isLineTerminator c) (dropWhile isWhiteSpace s)"
    using x by (intro takeWhile_append1[of x]) simp_all
  then show ?thesis by (simp add: fieldValue_def d)
qed

lemma fieldMatch_settled:
  assumes "l \<in> set fieldLabels" "fieldSettled (ascii l) pre" "v \<noteq> []" "hd v = 91"
  shows "fieldMatch l (pre @ v) =
           (case fieldMatch l pre of Some m \<Rightarrow> Some m | None \<Rightarrow> fieldMatch l v)"
proof -
  obtain r where v: "v = 91 # r" using assms(3,4) by (cases v) auto
  have bar: "\<forall>y\<in>set (ascii l). canon y \<noteq> canon 91"
    using label_chars[OF assms(1)] by (rule conjunct1)
  have ne: "ascii l \<noteq> []" using label_chars[OF assms(1)] by auto
  have len: "length (ascii l) = length l" by (simp add: ascii_def)
  let ?g = "matchAt True (fieldRe l)"
  have "search ?g (pre @ v) = (case search ?g pre of Some m \<Rightarrow> Some m | None \<Rightarrow> search ?g v)"
    using assms(2)
  proof (induction pre)
    case Nil
    have "?g [] = None" using ne by (cases "ascii l") (simp_all add: fieldRe_closed)
    then show ?case by simp
  next
    case (Cons c cs)
    have cp: "ciPrefix (ascii l) ((c # cs) @ 91 # r) = ciPrefix (ascii l) (c # cs)"
      using bar by (rule ciPrefix_barrier)
    show ?case
    proof (cases "ciPrefix (ascii l) (c # cs)")
      case True
      have "length l \<le> length (c # cs)" using ciPrefix_length[OF True] len by simp
      moreover have "\<And>xs. length l \<le> length xs \<Longrightarrow> drop (length l) (xs @ v) = drop (length l) xs @ v"
        by simp
      ultimately have dr: "drop (length l) ((c # cs) @ v) = drop (length l) (c # cs) @ v"
        by blast
      have "lineClosed (drop (length l) (c # cs))" using Cons.prems True len by simp
      then have "fieldValue (drop (length l) (c # cs) @ v) = fieldValue (drop (length l) (c # cs))"
        by (rule fieldValue_closed)
      then have "?g ((c # cs) @ v) = ?g (c # cs)"
        using True cp dr unfolding v by (simp add: fieldRe_closed del: ciPrefix.simps)
      moreover have "?g (c # cs) = Some [fieldValue (drop (length l) (c # cs))]"
        using True by (simp add: fieldRe_closed del: ciPrefix.simps)
      ultimately show ?thesis by simp
    next
      case False
      then have a: "?g (c # cs) = None" by (simp add: fieldRe_closed del: ciPrefix.simps)
      have b: "?g ((c # cs) @ v) = None"
        using False cp unfolding v by (simp add: fieldRe_closed del: ciPrefix.simps)
      have "fieldSettled (ascii l) cs" using Cons.prems False by simp
      then have "search ?g (cs @ v) = (case search ?g cs of Some m \<Rightarrow> Some m | None \<Rightarrow> search ?g v)"
        by (rule Cons.IH)
      then show ?thesis using a b by simp
    qed
  qed
  then show ?thesis by (simp add: fieldMatch_def jsMatch_def cong: option.case_cong)
qed

section \<open>Defaults of a block without labels\<close>

text \<open>
  Claim C6, as stated, fails: the patterns of S, T and L match inside ordinary words. The
  block below has a time range and no labeled field (no label stands at the start of
  the block or of a line), yet its dialogue is the text after the word \<open>murmurs\<close>.
\<close>

theorem parseScript_defaults_counterexample:
  "timeMatch (ascii ''[0:00 - 0:05]'' @ [10] @ ascii ''(crowd murmurs: indistinct)'')
     = Some [ascii ''0:00'', ascii ''0:05'']
   \<and> list_all (\<lambda>l. \<not> lineLeading (ascii l)
                       (ascii ''[0:00 - 0:05]'' @ [10] @ ascii ''(crowd murmurs: indistinct)''))
        fieldLabels
   \<and> map dialogue (pushBlock [] (ascii ''[0:00 - 0:05]'' @ [10]
                                   @ ascii ''(crowd murmurs: indistinct)''))
       = [ascii ''indistinct)'']
   \<and> map dialogue (pushBlock [] (ascii ''[0:00 - 0:05]'' @ [10]
                                   @ ascii ''(crowd murmurs: indistinct)''))
       \<noteq> [[]]"
proof -
  define blk where "blk = ascii ''[0:00 - 0:05]'' @ [10] @ ascii ''(crowd murmurs: indistinct)''"
  have t: "timeMatch blk = Some [ascii ''0:00'', ascii ''0:05'']"
    by (simp add: blk_def decode_eval)
  have l: "list_all (\<lambda>l. \<not> lineLeading (ascii l) blk) fieldLabels"
    by (simp add: blk_def fieldLabels_def lineLeading_def ascii_def canon_def isLineTerminator_def)
  have d: "map dialogue (pushBlock [] blk) = [ascii ''indistinct)'']"
    by (simp add: blk_def decode_eval)
  have n: "map dialogue (pushBlock [] blk) \<noteq> [[]]"
    unfolding d by (simp add: ascii_def)
  show ?thesis using t l d n unfolding blk_def by blast
qed

text \<open>
  Claim C6, amended. A block with a recognized time range yields one ScriptLine with the
  timestamps as matched. Each other field has its documented default whenever its label
  with the colon occurs nowhere in the text of the block, letter case ignored and
  occurrences inside longer words counted (for S, T and L: any letter s, t or l followed
  by a colon). When none of the seven labels occurs in that sense the record is all
  defaults: speaker \<open>Unknown\<close>, emotion \<open>Neutral\<close>, and empty strings for the meaning, the
  action description, the dialogue and the three dialogue versions.
\<close>

theorem parseScript_defaults:
  assumes "timeMatch block = Some tm"
  shows "pushBlock acc block = acc @ [mkLine tm block]
     \<and> startTime (mkLine tm block) = tm ! 0 \<and> endTime (mkLine tm block) = tm ! 1
     \<and> (\<not> ciOccurs (ascii ''Speaker:'') block \<longrightarrow> person (mkLine tm block) = ascii ''Unknown'')
     \<and> (\<not> ciOccurs (ascii ''Emotion:'') block \<longrightarrow>
           emotion (mkLine tm block) = Some (ascii ''Neutral''))
     \<and> (\<not> ciOccurs (ascii ''Original Meaning:'') block \<longrightarrow>
           originalMeaning (mkLine tm block) = Some [])
     \<and> (\<not> ciOccurs (ascii ''Action Description:'') block \<longrightarrow>
           actionDescription (mkLine tm block) = Some [])
     \<and> (\<not> ciOccurs (ascii ''S:'') block \<longrightarrow>
           dialogue (mkLine tm block) = [] \<and> spoken (versions (mkLine tm block)) = [])
     \<and> (\<not> ciOccurs (ascii ''T:'') block \<longrightarrow> tanglish (versions (mkLine tm block)) = [])
     \<and> (\<not> ciOccurs (ascii ''L:'') block \<longrightarrow> syncShort (versions (mkLine tm block)) = [])
     \<and> ((\<forall>l\<in>set fieldLabels. \<not> ciOccurs (ascii l) block) \<longrightarrow>
           pushBlock acc block = acc @
             [\<lparr> person = ascii ''Unknown'', startTime = tm ! 0, endTime = tm ! 1, dialogue = [],
                versions = \<lparr> spoken = [], tanglish = [], syncShort = [] \<rparr>,
                emotion = Some (ascii ''Neutral''), confidenceScore = None,
                actionDescription = Some [], originalMeaning = Some [] \<rparr>])"
proof -
  have none: "\<And>l d. \<not> ciOccurs (ascii l) block \<Longrightarrow> trimmedOr (fieldMatch l block) d = d"
  proof -
    fix l :: string and d :: jstring
    assume "\<not> ciOccurs (ascii l) block"
    then have "fieldMatch l block = None" by (simp add: fieldMatch_None_iff)
    then show "trimmedOr (fieldMatch l block) d = d" by (simp add: trimmedOr_def)
  qed
  have p: "pushBlock acc block = acc @ [mkLine tm block]"
    using assms by (rule pushBlock_time)
  have t: "startTime (mkLine tm block) = tm ! 0 \<and> endTime (mkLine tm block) = tm ! 1"
    using mkLine_times[OF assms] by blast
  have f1: "\<not> ciOccurs (ascii ''Speaker:'') block \<longrightarrow> person (mkLine tm block) = ascii ''Unknown''"
    using none[of "''Speaker:''"] by (simp add: mkLine_def)
  have f2: "\<not> ciOccurs (ascii ''Emotion:'') block \<longrightarrow>
           emotion (mkLine tm block) = Some (ascii ''Neutral'')"
    using none[of "''Emotion:''"] by (simp add: mkLine_def)
  have f3: "\<not> ciOccurs (ascii ''Original Meaning:'') block \<longrightarrow>
           originalMeaning (mkLine tm block) = Some []"
    using none[of "''Original Meaning:''"] by (simp add: mkLine_def)
  have f4: "\<not> ciOccurs (ascii ''Action Description:'') block \<longrightarrow>
           actionDescription (mkLine tm block) = Some []"
    using none[of "''Action Description:''"] by (simp add: mkLine_def)
  have f5: "\<not> ciOccurs (ascii ''S:'') block \<longrightarrow>
           dialogue (mkLine tm block) = [] \<and> spoken (versions (mkLine tm block)) = []"
    using none[of "''S:''"] by (simp add: mkLine_def)
  have f6: "\<not> ciOccurs (ascii ''T:'') block \<longrightarrow> tanglish (versions (mkLine tm block)) = []"
    using none[of "''T:''"] by (simp add: mkLine_def)
  have f7: "\<not> ciOccurs (ascii ''L:'') block \<longrightarrow> syncShort (versions (mkLine tm block)) = []"
    using none[of "''L:''"] by (simp add: mkLine_def)
  have all: "(\<forall>l\<in>set fieldLabels. \<not> ciOccurs (ascii l) block) \<longrightarrow>
           pushBlock acc block = acc @
             [\<lparr> person = ascii ''Unknown'', startTime = tm ! 0, endTime = tm ! 1, dialogue = [],
                versions = \<lparr> spoken = [], tanglish = [], syncShort = [] \<rparr>,
                emotion = Some (ascii ''Neutral''), confidenceScore = None,
                actionDescription = Some [], originalMeaning = Some [] \<rparr>]"
  proof
    assume a: "\<forall>l\<in>set fieldLabels. \<not> ciOccurs (ascii l) block"
    have f: "\<And>l d. l \<in> set fieldLabels \<Longrightarrow> trimmedOr (fieldMatch l block) d = d"
      using a none by blast
    have g: "trimmedOr (fieldMatch ''Speaker:'' block) (ascii ''Unknown'') = ascii ''Unknown''"
      "trimmedOr (fieldMatch ''Emotion:'' block) (ascii ''Neutral'') = ascii ''Neutral''"
      "trimmedOr (fieldMatch ''Original Meaning:'' block) [] = []"
      "trimmedOr (fieldMatch ''Action Description:'' block) [] = []"
      "trimmedOr (fieldMatch ''S:'' block) [] = []"
      "trimmedOr (fieldMatch ''T:'' block) [] = []"
      "trimmedOr (fieldMatch ''L:'' block) [] = []"
      by (rule f, simp add: fieldLabels_def)+
    have "mkLine tm block =
             \<lparr> person = ascii ''Unknown'', startTime = tm ! 0, endTime = tm ! 1, dialogue = [],
                versions = \<lparr> spoken = [], tanglish = [], syncShort = [] \<rparr>,
                emotion = Some (ascii ''Neutral''), confidenceScore = None,
                actionDescription = Some [], originalMeaning = Some [] \<rparr>"
      using t by (simp add: mkLine_def g)
    then show "pushBlock acc block = acc @
             [\<lparr> person = ascii ''Unknown'', startTime = tm ! 0, endTime = tm ! 1, dialogue = [],
                versions = \<lparr> spoken = [], tanglish = [], syncShort = [] \<rparr>,
                emotion = Some (ascii ''Neutral''), confidenceScore = None,
                actionDescription = Some [], originalMeaning = Some [] \<rparr>]"
      using p by simp
  qed
  show ?thesis using p t f1 f2 f3 f4 f5 f6 f7 all by blast
qed

theorem parseScript_defaults_witness:
  "timeMatch (ascii ''[0:00 '' @ [8211] @ ascii '' 0:05] (music)'') = Some [ascii ''0:00'', ascii ''0:05'']
   \<and> list_all (\<lambda>l. \<not> ciOccurs (ascii l) (ascii ''[0:00 '' @ [8211] @ ascii '' 0:05] (music)''))
        fieldLabels
   \<and> pushBlock [] (ascii ''[0:00 '' @ [8211] @ ascii '' 0:05] (music)'') =
           [\<lparr> person = ascii ''Unknown'', startTime = ascii ''0:00'', endTime = ascii ''0:05'',
              dialogue = [],
              versions = \<lparr> spoken = [], tanglish = [], syncShort = [] \<rparr>,
              emotion = Some (ascii ''Neutral''), confidenceScore = None,
              actionDescription = Some [], originalMeaning = Some [] \<rparr>]
   \<and> timeMatch (ascii ''[0:00 - 0:05] Emotion: Sad'') = Some [ascii ''0:00'', ascii ''0:05'']
   \<and> \<not> ciOccurs (ascii ''Speaker:'') (ascii ''[0:00 - 0:05] Emotion: Sad'')
   \<and> person (mkLine [ascii ''0:00'', ascii ''0:05''] (ascii ''[0:00 - 0:05] Emotion: Sad''))
       = ascii ''Unknown''"
proof -
  define b where "b = ascii ''[0:00 '' @ [8211] @ ascii '' 0:05] (music)''"
  define c where "c = ascii ''[0:00 - 0:05] Emotion: Sad''"
  have t: "timeMatch b = Some [ascii ''0:00'', ascii ''0:05'']"
    by (simp add: b_def decode_eval)
  have l: "\<forall>l\<in>set fieldLabels. \<not> ciOccurs (ascii l) b"
    by (simp add: b_def fieldLabels_def ascii_def canon_def)
  have u: "timeMatch c = Some [ascii ''0:00'', ascii ''0:05'']"
    by (simp add: c_def decode_eval)
  have s: "\<not> ciOccurs (ascii ''Speaker:'') c"
    by (simp add: c_def ascii_def canon_def)
  have "pushBlock [] b = [] @
           [\<lparr> person = ascii ''Unknown'', startTime = [ascii ''0:00'', ascii ''0:05''] ! 0,
              endTime = [ascii ''0:00'', ascii ''0:05''] ! 1, dialogue = [],
              versions = \<lparr> spoken = [], tanglish = [], syncShort = [] \<rparr>,
              emotion = Some (ascii ''Neutral''), confidenceScore = None,
              actionDescription = Some [], originalMeaning = Some [] \<rparr>]"
    using parseScript_defaults[OF t, of "[]"] l by blast
  then have "pushBlock [] b =
           [\<lparr> person = ascii ''Unknown'', startTime = ascii ''0:00'', endTime = ascii ''0:05'',
              dialogue = [],
              versions = \<lparr> spoken = [], tanglish = [], syncShort = [] \<rparr>,
              emotion = Some (ascii ''Neutral''), confidenceScore = None,
              actionDescription = Some [], originalMeaning = Some [] \<rparr>]"
    by simp
  moreover have "person (mkLine [ascii ''0:00'', ascii ''0:05''] c) = ascii ''Unknown''"
    using parseScript_defaults[OF u, of "[]"] s by blast
  ultimately show ?thesis using t l u s unfolding b_def c_def list_all_iff by blast
qed

section \<open>Where the one-letter labels match\<close>

text \<open>
  Claim C3, as stated, fails: the patterns \<open>/S:\s*(.*)/i\<close>, \<open>/T:\s*(.*)/i\<close> and
  \<open>/L:\s*(.*)/i\<close> carry no anchor. In the block below no line starts with \<open>S:\<close>, yet the
  spoken version is taken from inside the value of another field, after the word
  \<open>says\<close>.
\<close>

theorem oneLetter_labels_substring_counterexample:
  "map (\<lambda>l. spoken (versions l))
       (pushBlock [] (ascii ''[0:00 - 0:05]'' @ [10] @ ascii ''Original Meaning: He says: hi''))
     = [ascii ''hi'']
   \<and> \<not> lineLeading (ascii ''S:'')
         (ascii ''[0:00 - 0:05]'' @ [10] @ ascii ''Original Meaning: He says: hi'')"
proof -
  have a: "map (\<lambda>l. spoken (versions l))
       (pushBlock [] (ascii ''[0:00 - 0:05]'' @ [10] @ ascii ''Original Meaning: He says: hi''))
     = [ascii ''hi'']"
    by (simp add: pushBlock_def mkLine_def trimmedOr_def fieldMatch_def
        timeMatch_def fieldRe_def timeRangeRe_def timeClass_def jsMatch_def canon_def trim_def
        ascii_def isWhiteSpace_def isLineTerminator_def isDigit_def enDash_def)
  have b: "\<not> lineLeading (ascii ''S:'')
         (ascii ''[0:00 - 0:05]'' @ [10] @ ascii ''Original Meaning: He says: hi'')"
    by (simp add: lineLeading_def ascii_def canon_def isLineTerminator_def)
  show ?thesis using a b by (rule conjI)
qed


text \<open>
  Claim C3, amended. The fields S, T and L are taken at the leftmost place of the block
  where the letter, in either case, is immediately followed by a colon, wherever that
  place is. The value is what \<open>\s*(.*)\<close> captures there, trimmed: the white space after
  the colon is skipped, line breaks included, and the text up to the next line
  terminator is taken; a label with nothing after it on its line therefore takes the
  following line, as in the last conjunct. A field is empty when the block has no such
  place.
\<close>

theorem oneLetter_labels_unanchored:
  "(\<not> ciOccurs (ascii ''S:'') block \<longrightarrow>
      spoken (versions (mkLine tm block)) = [] \<and> dialogue (mkLine tm block) = [])
   \<and> (\<not> ciOccurs (ascii ''T:'') block \<longrightarrow> tanglish (versions (mkLine tm block)) = [])
   \<and> (\<not> ciOccurs (ascii ''L:'') block \<longrightarrow> syncShort (versions (mkLine tm block)) = [])
   \<and> (\<not> ciOccurs (ascii ''S:'') (pre @ take 1 rest) \<and> ciPrefix (ascii ''S:'') rest \<longrightarrow>
        spoken (versions (mkLine tm (pre @ rest))) = trim (fieldValue (drop 2 rest))
        \<and> dialogue (mkLine tm (pre @ rest)) = trim (fieldValue (drop 2 rest)))
   \<and> (\<not> ciOccurs (ascii ''T:'') (pre @ take 1 rest) \<and> ciPrefix (ascii ''T:'') rest \<longrightarrow>
        tanglish (versions (mkLine tm (pre @ rest))) = trim (fieldValue (drop 2 rest)))
   \<and> (\<not> ciOccurs (ascii ''L:'') (pre @ take 1 rest) \<and> ciPrefix (ascii ''L:'') rest \<longrightarrow>
        syncShort (versions (mkLine tm (pre @ rest))) = trim (fieldValue (drop 2 rest)))
   \<and> fieldValue s = takeWhile (\<lambda>c. \<not> isLineTerminator c) (dropWhile isWhiteSpace s)
   \<and> tanglish (versions (mkLine tm (ascii ''T:'' @ [10] @ ascii ''L: vna''))) = ascii ''L: vna''"
proof -
  have none: "\<And>l. \<not> ciOccurs (ascii l) block \<Longrightarrow> trimmedOr (fieldMatch l block) [] = []"
  proof -
    fix l :: string
    assume "\<not> ciOccurs (ascii l) block"
    then have "fieldMatch l block = None" by (simp add: fieldMatch_None_iff)
    then show "trimmedOr (fieldMatch l block) [] = []" by (simp add: trimmedOr_def)
  qed
  have first: "\<And>l. length l = 2 \<Longrightarrow> \<not> ciOccurs (ascii l) (pre @ take 1 rest)
      \<Longrightarrow> ciPrefix (ascii l) rest
      \<Longrightarrow> trimmedOr (fieldMatch l (pre @ rest)) [] = trim (fieldValue (drop 2 rest))"
  proof -
    fix l :: string
    assume l2: "length l = 2" and n: "\<not> ciOccurs (ascii l) (pre @ take 1 rest)"
      and p: "ciPrefix (ascii l) rest"
    have "\<not> ciOccurs (ascii l) (pre @ take (length l - 1) rest)" using n l2 by simp
    then have "fieldMatch l (pre @ rest) = Some [fieldValue (drop (length l) rest)]"
      using p by (rule fieldMatch_first)
    then show "trimmedOr (fieldMatch l (pre @ rest)) [] = trim (fieldValue (drop 2 rest))"
      using l2 by (simp add: trimmedOr_def)
  qed
  have cross: "tanglish (versions (mkLine tm (ascii ''T:'' @ [10] @ ascii ''L: vna''))) = ascii ''L: vna''"
    by (simp add: mkLine_def trimmedOr_def fieldMatch_def fieldRe_def jsMatch_def canon_def
        trim_def ascii_def isWhiteSpace_def isLineTerminator_def)
  have gen: "(\<not> ciOccurs (ascii ''S:'') block \<longrightarrow>
      spoken (versions (mkLine tm block)) = [] \<and> dialogue (mkLine tm block) = [])
   \<and> (\<not> ciOccurs (ascii ''T:'') block \<longrightarrow> tanglish (versions (mkLine tm block)) = [])
   \<and> (\<not> ciOccurs (ascii ''L:'') block \<longrightarrow> syncShort (versions (mkLine tm block)) = [])
   \<and> (\<not> ciOccurs (ascii ''S:'') (pre @ take 1 rest) \<and> ciPrefix (ascii ''S:'') rest \<longrightarrow>
        spoken (versions (mkLine tm (pre @ rest))) = trim (fieldValue (drop 2 rest))
        \<and> dialogue (mkLine tm (pre @ rest)) = trim (fieldValue (drop 2 rest)))
   \<and> (\<not> ciOccurs (ascii ''T:'') (pre @ take 1 rest) \<and> ciPrefix (ascii ''T:'') rest \<longrightarrow>
        tanglish (versions (mkLine tm (pre @ rest))) = trim (fieldValue (drop 2 rest)))
   \<and> (\<not> ciOccurs (ascii ''L:'') (pre @ take 1 rest) \<and> ciPrefix (ascii ''L:'') rest \<longrightarrow>
        syncShort (versions (mkLine tm (pre @ rest))) = trim (fieldValue (drop 2 rest)))"
    using none[of "''S:''"] none[of "''T:''"] none[of "''L:''"]
      first[of "''S:''"] first[of "''T:''"] first[of "''L:''"]
    by (simp add: mkLine_def)
  show ?thesis using gen cross fieldValue_def[of s] by blast
qed

theorem oneLetter_labels_unanchored_witness:
  "ciPrefix (ascii ''S:'') (ascii ''s: hi'')
   \<and> \<not> ciOccurs (ascii ''S:'') (ascii ''[0:00 - 0:05] He say'' @ take 1 (ascii ''s: hi''))
   \<and> spoken (versions (mkLine [ascii ''0:00'', ascii ''0:05'']
                          (ascii ''[0:00 - 0:05] He say'' @ ascii ''s: hi''))) = ascii ''hi''
   \<and> \<not> ciOccurs (ascii ''T:'') (ascii ''[0:00 - 0:05] He says: hi'')
   \<and> tanglish (versions (mkLine [ascii ''0:00'', ascii ''0:05'']
                            (ascii ''[0:00 - 0:05] He says: hi''))) = []"
proof -
  have p: "ciPrefix (ascii ''S:'') (ascii ''s: hi'')" by (simp add: ascii_def canon_def)
  have n: "\<not> ciOccurs (ascii ''S:'') (ascii ''[0:00 - 0:05] He say'' @ take 1 (ascii ''s: hi''))"
    by (simp add: ascii_def canon_def)
  have t: "\<not> ciOccurs (ascii ''T:'') (ascii ''[0:00 - 0:05] He says: hi'')"
    by (simp add: ascii_def canon_def)
  have v: "trim (fieldValue (drop 2 (ascii ''s: hi''))) = ascii ''hi''"
    by (simp add: ascii_def trim_def fieldValue_def isWhiteSpace_def isLineTerminator_def)
  show ?thesis
    using p n t v
      oneLetter_labels_unanchored[where block = "ascii ''[0:00 - 0:05] He says: hi''"
        and tm = "[ascii ''0:00'', ascii ''0:05'']" and pre = "ascii ''[0:00 - 0:05] He say''"
        and rest = "ascii ''s: hi''" and s = "[]"]
    by simp
qed

section \<open>The hyphen form against the en-dash form\<close>

lemma fieldMatch_around_range:
  assumes "l \<in> set fieldLabels" "fieldSettled (ascii l) pre"
    and "\<forall>x\<in>set a. isTimeChar x" "\<forall>x\<in>set b. isTimeChar x" "d = 45 \<or> d = enDash"
  shows "fieldMatch l (pre @ timeRange d a b @ post) =
           (case fieldMatch l pre of Some m \<Rightarrow> Some m | None \<Rightarrow> fieldMatch l post)"
proof -
  have "fieldMatch l (pre @ timeRange d a b @ post) =
           (case fieldMatch l pre of Some m \<Rightarrow> Some m
            | None \<Rightarrow> fieldMatch l (timeRange d a b @ post))"
    using assms(1,2) timeRange_hd[THEN conjunct1] timeRange_hd[THEN conjunct2]
    by (rule fieldMatch_settled)
  moreover have "fieldMatch l (timeRange d a b @ post) = fieldMatch l post"
    using assms(1,3,4,5) by (rule fieldMatch_skip_range)
  ultimately show ?thesis by (simp cong: option.case_cong)
qed

lemma jsMatch_time_before:
  assumes "d \<noteq> 91"
  shows "jsMatch False (timeRangeRe d) (pre @ timeRange e a b @ post) =
           (case jsMatch False (timeRangeRe d) pre of
              Some m \<Rightarrow> Some m
            | None \<Rightarrow> jsMatch False (timeRangeRe d) (timeRange e a b @ post))"
  unfolding jsMatch_def
  using assms timeRange_hd[THEN conjunct1] timeRange_hd[THEN conjunct2]
  by (rule search_time_local)

text \<open>
  Claim C7, as stated, fails in two ways. A labeled field takes the rest of its line, so
  a time range that follows a label on the same line is part of that field's value, and
  the two dash forms differ in it. And the en-dash pattern is tried first over the
  whole block: with a hyphen range before the range in question, the hyphen form is
  decoded by the earlier range and the en-dash form by the later one.
\<close>

theorem dash_forms_counterexample:
  "pushBlock [] (ascii ''S:[0:00 - 0:05]'')
     \<noteq> pushBlock [] (ascii ''S:[0:00 '' @ [8211] @ ascii '' 0:05]'')
   \<and> pushBlock [] (ascii ''[0:01 - 0:02] [0:03 - 0:04]'')
     \<noteq> pushBlock [] (ascii ''[0:01 - 0:02] [0:03 '' @ [8211] @ ascii '' 0:04]'')"
proof -
  have a: "pushBlock [] (ascii ''S:[0:00 - 0:05]'')
     \<noteq> pushBlock [] (ascii ''S:[0:00 '' @ [8211] @ ascii '' 0:05]'')"
    by (simp add: decode_eval)
  have b: "pushBlock [] (ascii ''[0:01 - 0:02] [0:03 - 0:04]'')
     \<noteq> pushBlock [] (ascii ''[0:01 - 0:02] [0:03 '' @ [8211] @ ascii '' 0:04]'')"
    by (simp add: decode_eval)
  show ?thesis using a b by (rule conjI)
qed

text \<open>
  Claim C7, amended. Let the block be \<open>pre\<close>, the time range, \<open>post\<close>. Suppose that, for
  each of the seven field patterns, its leftmost match in \<open>pre\<close>, if there is one, has its
  value ended inside \<open>pre\<close>: after the label's colon and the white space that follows, a
  line terminator comes before the range. Suppose also that either the en-dash pattern
  matches in \<open>pre\<close>, or the hyphen pattern does not match in \<open>pre\<close> and the en-dash
  pattern does not match in \<open>post\<close>. Then the block written with the hyphen decodes to
  exactly the same ScriptLine as the block written with the en dash; when \<open>pre\<close> holds no
  time range the start and end are those of the range. The en-dash pattern is tried
  first, then the hyphen pattern.
\<close>

theorem parseScript_dash_forms:
  assumes "a \<noteq> []" "b \<noteq> []" "\<forall>x\<in>set a. isTimeChar x" "\<forall>x\<in>set b. isTimeChar x"
    and "\<forall>l\<in>set fieldLabels. fieldSettled (ascii l) pre"
    and "jsMatch False (timeRangeRe enDash) pre \<noteq> None
         \<or> (jsMatch False (timeRangeRe 45) pre = None
            \<and> jsMatch False (timeRangeRe enDash) post = None)"
  shows "pushBlock acc (pre @ timeRange 45 a b @ post)
           = pushBlock acc (pre @ timeRange enDash a b @ post)
         \<and> (timeMatch pre = None \<longrightarrow>
               pushBlock acc (pre @ timeRange enDash a b @ post)
                 = acc @ [mkLine [a, b] (pre @ timeRange enDash a b @ post)]
               \<and> startTime (mkLine [a, b] (pre @ timeRange enDash a b @ post)) = a
               \<and> endTime (mkLine [a, b] (pre @ timeRange enDash a b @ post)) = b)
         \<and> timeMatch blk = (case jsMatch False (timeRangeRe enDash) blk of
                              Some m \<Rightarrow> Some m
                            | None \<Rightarrow> jsMatch False (timeRangeRe 45) blk)"
proof -
  have f: "\<forall>l\<in>set fieldLabels. fieldMatch l (pre @ timeRange 45 a b @ post)
             = fieldMatch l (pre @ timeRange enDash a b @ post)"
  proof
    fix l assume l: "l \<in> set fieldLabels"
    have s: "fieldSettled (ascii l) pre" using assms(5) l by blast
    show "fieldMatch l (pre @ timeRange 45 a b @ post)
             = fieldMatch l (pre @ timeRange enDash a b @ post)"
      using fieldMatch_around_range[OF l s assms(3,4), of 45 post]
        fieldMatch_around_range[OF l s assms(3,4), of enDash post]
      by simp
  qed
  have m: "\<And>tm. mkLine tm (pre @ timeRange 45 a b @ post)
                  = mkLine tm (pre @ timeRange enDash a b @ post)"
    using f by (rule mkLine_same_fields)
  have same_tm: "\<exists>tm. timeMatch (pre @ timeRange 45 a b @ post) = Some tm
                     \<and> timeMatch (pre @ timeRange enDash a b @ post) = Some tm"
  proof (cases "jsMatch False (timeRangeRe enDash) pre")
    case (Some tm)
    have e: "enDash \<noteq> 91" by (simp add: enDash_def)
    have "jsMatch False (timeRangeRe enDash) (pre @ timeRange 45 a b @ post) = Some tm"
      using jsMatch_time_before[OF e, of pre 45 a b post] Some by simp
    moreover have "jsMatch False (timeRangeRe enDash) (pre @ timeRange enDash a b @ post) = Some tm"
      using jsMatch_time_before[OF e, of pre enDash a b post] Some by simp
    ultimately show ?thesis by (simp add: timeMatch_def)
  next
    case None
    then have hy: "jsMatch False (timeRangeRe 45) pre = None"
      and po: "jsMatch False (timeRangeRe enDash) post = None"
      using assms(6) by simp_all
    have pre: "timeMatch pre = None" using None hy by (simp add: timeMatch_None_both)
    have "timeMatch (pre @ timeRange enDash a b @ post) = Some [a, b]"
      using assms(1-4) pre by (rule timeMatch_enDash_form)
    moreover have "timeMatch (pre @ timeRange 45 a b @ post) = Some [a, b]"
      using assms(1-4) pre po by (rule timeMatch_hyphen_form)
    ultimately show ?thesis by simp
  qed
  have c1: "pushBlock acc (pre @ timeRange 45 a b @ post)
           = pushBlock acc (pre @ timeRange enDash a b @ post)"
  proof -
    obtain tm where h: "timeMatch (pre @ timeRange 45 a b @ post) = Some tm"
      and e: "timeMatch (pre @ timeRange enDash a b @ post) = Some tm"
      using same_tm by blast
    show ?thesis using pushBlock_time[OF h, of acc] pushBlock_time[OF e, of acc] m[of tm] by simp
  qed
  have c2: "timeMatch pre = None \<longrightarrow>
               pushBlock acc (pre @ timeRange enDash a b @ post)
                 = acc @ [mkLine [a, b] (pre @ timeRange enDash a b @ post)]
               \<and> startTime (mkLine [a, b] (pre @ timeRange enDash a b @ post)) = a
               \<and> endTime (mkLine [a, b] (pre @ timeRange enDash a b @ post)) = b"
  proof
    assume pre: "timeMatch pre = None"
    have te: "timeMatch (pre @ timeRange enDash a b @ post) = Some [a, b]"
      using assms(1-4) pre by (rule timeMatch_enDash_form)
    show "pushBlock acc (pre @ timeRange enDash a b @ post)
                 = acc @ [mkLine [a, b] (pre @ timeRange enDash a b @ post)]
               \<and> startTime (mkLine [a, b] (pre @ timeRange enDash a b @ post)) = a
               \<and> endTime (mkLine [a, b] (pre @ timeRange enDash a b @ post)) = b"
      using pushBlock_time[OF te, of acc] mkLine_times[OF te] by simp
  qed
  show ?thesis using c1 c2 by (simp add: timeMatch_def)
qed

theorem parseScript_dash_forms_witness:
  "timeRange 45 (ascii ''0:00'') (ascii ''0:05'') = ascii ''[0:00 - 0:05]''
   \<and> list_all (\<lambda>l. fieldSettled (ascii l) (ascii ''Speaker: Kumar'' @ [10])) fieldLabels
   \<and> jsMatch False (timeRangeRe 45) (ascii ''Speaker: Kumar'' @ [10]) = None
   \<and> jsMatch False (timeRangeRe enDash) (10 # ascii ''S: hi'') = None
   \<and> pushBlock [] ((ascii ''Speaker: Kumar'' @ [10])
                    @ timeRange 45 (ascii ''0:00'') (ascii ''0:05'') @ 10 # ascii ''S: hi'')
       = pushBlock [] ((ascii ''Speaker: Kumar'' @ [10])
                    @ timeRange enDash (ascii ''0:00'') (ascii ''0:05'') @ 10 # ascii ''S: hi'')
   \<and> map person (pushBlock [] ((ascii ''Speaker: Kumar'' @ [10])
                    @ timeRange enDash (ascii ''0:00'') (ascii ''0:05'') @ 10 # ascii ''S: hi''))
       = [ascii ''Kumar'']"
proof -
  define pre where "pre = ascii ''Speaker: Kumar'' @ [10]"
  define post where "post = 10 # ascii ''S: hi''"
  have r: "timeRange 45 (ascii ''0:00'') (ascii ''0:05'') = ascii ''[0:00 - 0:05]''"
    by (simp add: timeRange_def ascii_def)
  have a: "ascii ''0:00'' \<noteq> []" "ascii ''0:05'' \<noteq> []"
    "\<forall>x\<in>set (ascii ''0:00''). isTimeChar x" "\<forall>x\<in>set (ascii ''0:05''). isTimeChar x"
    by (simp_all add: ascii_def isTimeChar_def isDigit_def)
  have l: "\<forall>l\<in>set fieldLabels. fieldSettled (ascii l) pre"
    by (simp add: pre_def fieldLabels_def ascii_def canon_def lineClosed_def
        isWhiteSpace_def isLineTerminator_def)
  have p: "jsMatch False (timeRangeRe 45) pre = None" by (simp add: pre_def decode_eval)
  have q: "jsMatch False (timeRangeRe enDash) post = None" by (simp add: post_def decode_eval)
  have t: "jsMatch False (timeRangeRe enDash) pre \<noteq> None
         \<or> (jsMatch False (timeRangeRe 45) pre = None
            \<and> jsMatch False (timeRangeRe enDash) post = None)"
    using p q by simp
  have e: "pushBlock [] (pre @ timeRange 45 (ascii ''0:00'') (ascii ''0:05'') @ post)
       = pushBlock [] (pre @ timeRange enDash (ascii ''0:00'') (ascii ''0:05'') @ post)"
    using parseScript_dash_forms[OF a l t, of "[]" "[]"] by (rule conjunct1)
  have k: "map person (pushBlock [] (pre @ timeRange enDash (ascii ''0:00'') (ascii ''0:05'') @ post))
       = [ascii ''Kumar'']"
    by (simp add: pre_def post_def timeRange_def decode_eval)
  show ?thesis using r l p q e k unfolding pre_def post_def list_all_iff by blast
qed

end
